theory Spec2Isabelle
  imports Main
begin

section \<open>The process runner: \<open>exec\<close>\<close>

subsection \<open>The warning pattern\<close>

text \<open>
  \<open>exec\<close> computes the warnings of a finished process as
  \<^verbatim>\<open>ansi.strip (stderr).match (/^\[[^\]]+\]/g) || []\<close>.
  The regular expression has the flag \<open>g\<close> and no flag \<open>m\<close>. The three functions
  below follow the steps of \<open>String.prototype.match\<close> with a global pattern: try the
  pattern at one index, search forward from \<open>lastIndex\<close> for the first index where it
  matches, and repeat the search from the end of each match until it fails.
\<close>

definition pattern_at :: "string \<Rightarrow> nat \<Rightarrow> nat option" where
  \<comment> \<open>The pattern tried with the match starting at index \<open>i\<close>; the result is the index
      after the match. \<open>^\<close> without the flag \<open>m\<close> holds at the start of the input only.
      \<open>[^\]]+\<close> is greedy and takes the whole run of characters other than \<open>]\<close>; giving
      characters back cannot help, since the character after a shorter run is in the run.\<close>
  "pattern_at s i =
     (if i \<noteq> 0 then None
      else (case drop i s of
              [] \<Rightarrow> None
            | c # r \<Rightarrow>
                if c \<noteq> CHR ''['' then None
                else (let body = takeWhile (\<lambda>x. x \<noteq> CHR '']'') r
                      in if body = [] then None
                         else if length body < length r then Some (i + 1 + length body + 1)
                         else None)))"

function exec_from :: "string \<Rightarrow> nat \<Rightarrow> (nat \<times> nat) option" where
  \<comment> \<open>One \<open>RegExp.prototype.exec\<close> from \<open>lastIndex = i\<close>: the first index at or after
      \<open>i\<close> where the pattern matches, with the end of the match.\<close>
  "exec_from s i =
     (if length s < i then None
      else (case pattern_at s i of
              Some e \<Rightarrow> Some (i, e)
            | None \<Rightarrow> exec_from s (i + 1)))"
  by pat_completeness auto
termination
  by (relation "measure (\<lambda>(s, i). length s + 1 - i)") auto

function match_g :: "string \<Rightarrow> nat \<Rightarrow> string list" where
  \<comment> \<open>The loop of \<open>match\<close> with a global pattern: collect the matched substrings,
      continuing from the end of each match (one further after an empty match).\<close>
  "match_g s lastIndex =
     (case exec_from s lastIndex of
        None \<Rightarrow> []
      | Some (i, e) \<Rightarrow>
          take (e - i) (drop i s) # match_g s (if e = i then e + 1 else e))"
  by pat_completeness auto
termination
proof (relation "measure (\<lambda>(s, l). length s + 1 - l)")
  show "wf (measure (\<lambda>(s, l). length s + 1 - l))" by simp
next
  fix s :: string and lastIndex :: nat and x2 :: "nat \<times> nat" and i e :: nat
  assume ex: "exec_from s lastIndex = Some x2" and x2: "(i, e) = x2"
  have found: "\<And>l j k. exec_from s l = Some (j, k) \<Longrightarrow> l \<le> j \<and> j \<le> length s \<and> j < k"
  proof -
    fix l j k
    show "exec_from s l = Some (j, k) \<Longrightarrow> l \<le> j \<and> j \<le> length s \<and> j < k"
    proof (induction s l rule: exec_from.induct)
      case (1 s i)
      show ?case
      proof (cases "pattern_at s i")
        case None
        with "1.prems" have le: "\<not> length s < i" and rec: "exec_from s (i + 1) = Some (j, k)"
          by (auto split: if_splits)
        from "1.IH" [OF le None rec] show ?thesis by simp
      next
        case (Some e')
        with "1.prems" have "j = i" "k = e'" "\<not> length s < i"
          by (auto split: if_splits)
        moreover from Some have "i < e'"
          by (auto simp: pattern_at_def Let_def split: if_splits list.splits)
        ultimately show ?thesis by simp
      qed
    qed
  qed
  from ex x2 have "exec_from s lastIndex = Some (i, e)" by simp
  from found [OF this] have "lastIndex \<le> i" "i \<le> length s" "i < e" by simp_all
  then show "((s, if e = i then e + 1 else e), (s, lastIndex))
             \<in> measure (\<lambda>(s, l). length s + 1 - l)"
    by simp
qed

definition js_match :: "string \<Rightarrow> string list" where
  \<comment> \<open>\<open>s.match (/^\[[^\]]+\]/g) || []\<close>: \<open>match\<close> starts at \<open>lastIndex = 0\<close> and gives
      \<open>null\<close> when nothing matched, which \<open>|| []\<close> turns into the empty array.\<close>
  "js_match s = match_g s 0"

function spec_tokens :: "string \<Rightarrow> string list" where
  \<comment> \<open>The extraction in the specification's words, for comparison with \<open>js_match\<close>:
      every substring that starts with \<open>[\<close>, followed by one or more characters other
      than \<open>]\<close>, followed by \<open>]\<close>, from left to right.\<close>
  "spec_tokens [] = []"
| "spec_tokens (c # r) =
     (let body = takeWhile (\<lambda>x. x \<noteq> CHR '']'') r
      in if c = CHR ''['' \<and> body \<noteq> [] \<and> length body < length r
         then (c # body @ '']'') # spec_tokens (drop (length body + 1) r)
         else spec_tokens r)"
  by pat_completeness auto
termination
  by (relation "measure length") auto

subsection \<open>Stripping colours\<close>

definition ESC :: char where
  "ESC = CHR 0x1B"

definition sgr_param :: "char \<Rightarrow> bool" where
  "sgr_param c = (c \<in> set ''0123456789;'')"

function ansi_strip :: "string \<Rightarrow> string" where
  \<comment> \<open>Modelled from the spec: \<open>ansi.strip\<close> belongs to the package \<open>ansicolor\<close>, which is
      not part of the sources. The specification says that it strips ANSI/color escape
      sequences; this function removes every colour sequence \<open>ESC [ parameters m\<close> and
      keeps all other text.\<close>
  "ansi_strip [] = []"
| "ansi_strip (c # r) =
     (if c = ESC \<and> take 1 r = ''[''
      then (case dropWhile sgr_param (drop 1 r) of
              [] \<Rightarrow> c # ansi_strip r
            | m # r' \<Rightarrow> if m = CHR ''m'' then ansi_strip r' else c # ansi_strip r)
      else c # ansi_strip r)"
  by pat_completeness auto
termination
proof (relation "measure length")
  show "wf (measure (length :: string \<Rightarrow> nat))" by simp
next
  fix c :: char and r :: string and m :: char and r' :: string
  assume "dropWhile sgr_param (drop 1 r) = m # r'"
  then have "length (m # r') \<le> length (drop 1 r)"
    using length_dropWhile_le [of sgr_param "drop 1 r"] by simp
  then show "(r', c # r) \<in> measure length" by simp
qed simp_all

subsection \<open>Running one process\<close>

datatype chunk = Stdout string | Stderr string

record process =
  chunks :: "chunk list"
  code :: "int option"

text \<open>
  A spawned process is what it writes, as the list of its \<open>data\<close> events in the order
  they arrive, and the code of its \<open>exit\<close> event, which is \<open>null\<close> (here \<open>None\<close>) when a
  signal ended it. \<open>collect\<close> is the state of the three variables \<open>output\<close>, \<open>stderr\<close>
  and \<open>hasWarnings\<close> after the two \<open>data\<close> handlers have seen the chunks.
\<close>

fun collect :: "string \<times> string \<times> bool \<Rightarrow> chunk list \<Rightarrow> string \<times> string \<times> bool" where
  "collect acc [] = acc"
| "collect (output, stderr, hasWarnings) (Stdout d # cs) =
     collect (output @ d, stderr, hasWarnings) cs"
| "collect (output, stderr, hasWarnings) (Stderr d # cs) =
     collect (output @ d, stderr @ d, True) cs"

record proc_result =
  failed :: bool
  outputText :: string
  hasWarnings :: bool
  warnings :: "string list"

definition exec :: "(string \<Rightarrow> string) \<Rightarrow> process \<Rightarrow> proc_result" where
  \<comment> \<open>The value passed to \<open>return_\<close> in the \<open>exit\<close> handler. \<open>strip\<close> stands for
      \<open>ansi.strip\<close>.\<close>
  "exec strip ps =
     (case collect ([], [], False) (chunks ps) of
        (out, err, warned) \<Rightarrow>
          \<lparr> failed = (code ps \<noteq> Some 0),
            outputText = out,
            hasWarnings = warned,
            warnings = js_match (strip err) \<rparr>)"

section \<open>The command line\<close>

record cli =
  keys :: "string \<rightharpoonup> bool"
  exchanges :: "string list"
  symbol :: string

definition startsWith :: "string \<Rightarrow> string \<Rightarrow> bool" where
  "startsWith s p = (take (length p) s = p)"

definition initial_cli :: cli where
  "initial_cli =
     \<lparr> keys = [''--js'' \<mapsto> False, ''--php'' \<mapsto> False, ''--python'' \<mapsto> False,
                ''--python3'' \<mapsto> False],
       exchanges = [],
       symbol = ''all'' \<rparr>"

definition parse_arg :: "cli \<Rightarrow> string \<Rightarrow> cli" where
  \<comment> \<open>The body of the loop over the arguments.\<close>
  "parse_arg c arg =
     (if startsWith arg ''--'' then c\<lparr> keys := (keys c)(arg \<mapsto> True) \<rparr>
      else if CHR ''/'' \<in> set arg then c\<lparr> symbol := arg \<rparr>
      else c\<lparr> exchanges := exchanges c @ [arg] \<rparr>)"

definition parse_args :: "string list \<Rightarrow> cli" where
  "parse_args args = foldl parse_arg initial_cli args"

definition selected :: "cli \<Rightarrow> string \<Rightarrow> bool" where
  \<comment> \<open>The truthiness of \<open>keys[k]\<close>: a key that was never set reads as \<open>undefined\<close>.\<close>
  "selected c k = (keys c k = Some True)"

section \<open>The unit executor: \<open>testExchange\<close>\<close>

subsection \<open>The world of one unit\<close>

text \<open>
  Awaiting a process is an effect: time passes. The world holds the clock, the log of
  the processes spawned so far, each with its arguments, the time of its spawn and the
  time of its exit, the counter \<open>numExchangesTested\<close> and the status part of the
  progress lines printed so far. The environment says, for the arguments of a process
  and the time of its spawn, what the process does and how long it runs.
\<close>

record world =
  now :: nat
  spawned :: "(string list \<times> nat \<times> nat) list"
  numExchangesTested :: nat
  progress :: "(string \<times> string) list"

type_synonym env = "string list \<Rightarrow> nat \<Rightarrow> process \<times> nat"

definition await_exec ::
  "env \<Rightarrow> (string \<Rightarrow> string) \<Rightarrow> string list \<Rightarrow> world \<Rightarrow> proc_result \<times> world" where
  \<comment> \<open>\<open>await exec (...argv)\<close>: the process is spawned now, and the caller goes on when its
      \<open>exit\<close> event has resolved the promise.\<close>
  "await_exec env strip argv w =
     (case env argv (now w) of
        (ps, duration) \<Rightarrow>
          (exec strip ps,
           w\<lparr> now := now w + duration,
              spawned := spawned w @ [(argv, now w, now w + duration)] \<rparr>))"

subsection \<open>\<open>sequentialMap\<close>\<close>

fun sequentialMap_loop ::
  "'b list \<Rightarrow> 'a list \<Rightarrow> ('a \<Rightarrow> 's \<Rightarrow> 'b \<times> 's) \<Rightarrow> 's \<Rightarrow> 'b list \<times> 's" where
  \<comment> \<open>\<open>for (const item of input) { result.push (await fn (item)) }\<close>: the effect of
      \<open>fn (item)\<close> is complete before the next item is taken.\<close>
  "sequentialMap_loop result [] fn s = (result, s)"
| "sequentialMap_loop result (item # input) fn s =
     (case fn item s of (r, s') \<Rightarrow> sequentialMap_loop (result @ [r]) input fn s')"

definition sequentialMap :: "'a list \<Rightarrow> ('a \<Rightarrow> 's \<Rightarrow> 'b \<times> 's) \<Rightarrow> 's \<Rightarrow> 'b list \<times> 's" where
  "sequentialMap input fn s = sequentialMap_loop [] input fn s"

subsection \<open>The tests of one exchange\<close>

record test =
  language :: string
  key :: string
  exec_args :: "string list"

text \<open>
  \<open>Object.assign (test, await exec (...test.exec))\<close> adds the four fields of the result
  to the test: a complete test is a process result extended by the fields of the test.
  The field \<open>exec\<close> of a test is \<open>exec_args\<close> here, and \<open>output\<close> is \<open>outputText\<close>.
\<close>

type_synonym completeTest = "test proc_result_scheme"

definition assign :: "test \<Rightarrow> proc_result \<Rightarrow> completeTest" where
  "assign t r = proc_result.extend r t"

definition test_args :: "cli \<Rightarrow> string \<Rightarrow> string list" where
  \<comment> \<open>\<open>[exchange, ...symbol === 'all' ? [] : symbol]\<close>: the spread of a string gives its
      characters, one element each.\<close>
  "test_args c exchange = exchange # (if symbol c = ''all'' then [] else map (\<lambda>ch. [ch]) (symbol c))"

definition allTests :: "string list \<Rightarrow> test list" where
  "allTests args =
     [ \<lparr> language = ''JavaScript'', key = ''--js'',
         exec_args = [''node'', ''test/test.js''] @ args \<rparr>,
       \<lparr> language = ''Python'', key = ''--python'',
         exec_args = [''python'', ''test/test.py''] @ args \<rparr>,
       \<lparr> language = ''Python 3'', key = ''--python3'',
         exec_args = [''python3'', ''test/test_async.py''] @ args \<rparr>,
       \<lparr> language = ''PHP'', key = ''--php'',
         exec_args = [''php'', ''-f'', ''test/test.php''] @ args \<rparr> ]"

definition selectedTests :: "cli \<Rightarrow> string list \<Rightarrow> test list" where
  "selectedTests c args = filter (\<lambda>t. selected c (key t)) (allTests args)"

definition scheduledTests :: "cli \<Rightarrow> string list \<Rightarrow> test list" where
  "scheduledTests c args =
     (if length (selectedTests c args) \<noteq> 0 then selectedTests c args else allTests args)"

definition run_test ::
  "env \<Rightarrow> (string \<Rightarrow> string) \<Rightarrow> test \<Rightarrow> world \<Rightarrow> completeTest \<times> world" where
  \<comment> \<open>\<open>async test => Object.assign (test, await exec (...test.exec))\<close>\<close>
  "run_test env strip test w =
     (case await_exec env strip (exec_args test) w of (r, w') \<Rightarrow> (assign test r, w'))"

definition completeTests ::
  "env \<Rightarrow> (string \<Rightarrow> string) \<Rightarrow> test list \<Rightarrow> world \<Rightarrow> completeTest list \<times> world" where
  "completeTests env strip scheduled w = sequentialMap scheduled (run_test env strip) w"

fun chained :: "nat \<Rightarrow> (string list \<times> nat \<times> nat) list \<Rightarrow> bool" where
  \<comment> \<open>A log of processes run one after the other from time \<open>t\<close>: each is spawned when
      the one before it has exited.\<close>
  "chained t [] = True"
| "chained t ((argv, s, e) # r) = (t = s \<and> s \<le> e \<and> chained e r)"

subsection \<open>The outcome of one exchange\<close>

text \<open>
  The value \<open>testExchange\<close> returns is the object
  \<open>{ exchange, failed, hasWarnings, explain }\<close>. \<open>failed\<close> and \<open>hasWarnings\<close> are results
  of \<open>find\<close>: a complete test, or \<open>undefined\<close>. The method \<open>explain\<close> closes over
  the complete tests; it is the list of the blocks it prints when called.
\<close>

datatype jsval =
    Undefined
  | JString string
  | JTest completeTest
  | JMethod "(bool \<times> string \<times> string \<times> string) list"

type_synonym object = "(string \<times> jsval) list"

definition get :: "object \<Rightarrow> string \<Rightarrow> jsval" where
  \<comment> \<open>Reading a property: a property the object does not have reads as \<open>undefined\<close>.\<close>
  "get obj k = (case map_of obj k of Some v \<Rightarrow> v | None \<Rightarrow> Undefined)"

fun truthy :: "jsval \<Rightarrow> bool" where
  "truthy Undefined = False"
| "truthy (JString s) = (s \<noteq> [])"
| "truthy (JTest t) = True"
| "truthy (JMethod m) = True"

definition js_find :: "(completeTest \<Rightarrow> bool) \<Rightarrow> completeTest list \<Rightarrow> jsval" where
  "js_find P ts = (case find P ts of Some t \<Rightarrow> JTest t | None \<Rightarrow> Undefined)"

definition unit_warnings :: "completeTest list \<Rightarrow> string list" where
  \<comment> \<open>The constant \<open>warnings\<close> of \<open>testExchange\<close>:
      \<open>completeTests.reduce ((total, { warnings }) => total.concat (warnings), [])\<close>.\<close>
  "unit_warnings ts = foldl (\<lambda>total t. total @ warnings t) [] ts"

fun join_with :: "string \<Rightarrow> string list \<Rightarrow> string" where
  "join_with sep [] = []"
| "join_with sep [x] = x"
| "join_with sep (x # y # r) = x @ sep @ join_with sep (y # r)"

definition status_text :: "completeTest list \<Rightarrow> string" where
  \<comment> \<open>The status of the progress line.\<close>
  "status_text ts =
     (if truthy (js_find failed ts) then ''FAIL''
      else if truthy (js_find hasWarnings ts)
           then (if length (unit_warnings ts) \<noteq> 0 then join_with '' '' (unit_warnings ts)
                 else ''WARN'')
           else ''OK'')"

definition explain :: "string \<Rightarrow> completeTest list \<Rightarrow> (bool \<times> string \<times> string \<times> string) list" where
  \<comment> \<open>One block for each test that failed or has warnings: whether it failed, the
      exchange, the language and the output.\<close>
  "explain exchange ts =
     map (\<lambda>t. (failed t, exchange, language (proc_result.more t), outputText t))
       (filter (\<lambda>t. failed t \<or> hasWarnings t) ts)"

definition outcome :: "string \<Rightarrow> completeTest list \<Rightarrow> object" where
  "outcome exchange ts =
     [ (''exchange'', JString exchange),
       (''failed'', js_find failed ts),
       (''hasWarnings'', js_find hasWarnings ts),
       (''explain'', JMethod (explain exchange ts)) ]"

definition testExchange ::
  "env \<Rightarrow> (string \<Rightarrow> string) \<Rightarrow> cli \<Rightarrow> string \<Rightarrow> world \<Rightarrow> object \<times> world" where
  \<comment> \<open>The percentage of the progress line is left out of the world; its status and
      the exchange are kept.\<close>
  "testExchange env strip c exchange w =
     (case completeTests env strip (scheduledTests c (test_args c exchange)) w of
        (ts, w') \<Rightarrow>
          (outcome exchange ts,
           w'\<lparr> numExchangesTested := numExchangesTested w' + 1,
               progress := progress w' @ [(exchange, status_text ts)] \<rparr>))"

section \<open>The bounded task pool: \<open>TaskPool\<close>\<close>

subsection \<open>Promises and events\<close>

text \<open>
  A task is a thunk that returns a promise. The pool never looks into a task: all it
  sees is how the promise \<open>timeout (maxTime, task ())\<close> settles. That promise is a race
  of the task's own promise and of a timer that throws \<open>timed out\<close>: the first of the
  two to settle decides it, and what comes later is ignored. The thunks are async
  functions (\<open>() => testExchange (ex)\<close>): calling one does not throw. Tasks are
  numbered in the order of the calls of \<open>run\<close> from outside the pool.

  The events that drive a pool are a call of \<open>run\<close> with a new task, and, for a task
  that was started, the fulfilment of its promise with a value, its rejection, and
  the firing of its timer. The promise reactions an event sets off run to their end
  before the next event is taken, as the microtasks of one turn of the event loop do.
\<close>

datatype error = TimedOut | Thrown

datatype 'v promise = Pending | Fulfilled 'v | Rejected error

datatype 'v event = Run | Task_fulfils nat 'v | Task_rejects nat | Timer_fires nat

text \<open>
  The state of a pool: the variables \<open>numActive\<close>, \<open>queue\<close> and \<open>pending\<close> of the
  closure with the configured ceiling, the number of tasks submitted so far (the
  number of the next task), the effects of the pool (the tasks whose thunk was called,
  in the order of the calls, and the numbers printed by \<open>console.log\<close>), and the
  promises:
  \<^item> \<open>raced t\<close> is how \<open>timeout (maxTime, task ())\<close> of task \<open>t\<close> has settled;
  \<^item> \<open>promise t\<close> is the promise \<open>p\<close> made when task \<open>t\<close> is executed, which is pushed
    to \<open>pending\<close>: an entry \<open>t\<close> of \<open>queue\<close> or \<open>pending\<close> stands for the closure or the
    promise of task \<open>t\<close>;
  \<^item> \<open>outer t\<close> is the promise \<open>run\<close> returns when it queues task \<open>t\<close>;
  \<^item> \<open>waiters t\<close> are the tasks whose promise \<open>p\<close> waits for the promise of \<open>t\<close>, the
    nearest first: the handler of a fulfilled task that takes \<open>t\<close> from the queue
    returns \<open>queue.shift () ().then (() => x)\<close>, so its own promise, and with it every
    promise that waits for that one, settles when the promise of \<open>t\<close> does.

  The ceiling \<open>maxConcurrency\<close> is a number of tasks, a natural number; \<open>numActive\<close> is
  an integer, so that a decrement below zero would show.
\<close>

record 'v pool =
  maxConcurrency :: nat
  numActive :: int
  queue :: "nat list"
  pending :: "nat list"
  submitted :: nat
  calls :: "nat list"
  console :: "int list"
  raced :: "nat \<rightharpoonup> error + 'v"
  promise :: "nat \<rightharpoonup> 'v promise"
  outer :: "nat \<rightharpoonup> 'v promise"
  waiters :: "nat \<Rightarrow> nat list"

definition TaskPool :: "nat \<Rightarrow> 'v pool" where
  "TaskPool ceiling =
     \<lparr> maxConcurrency = ceiling, numActive = 0, queue = [], pending = [], submitted = 0,
       calls = [], console = [], raced = Map.empty, promise = Map.empty, outer = Map.empty,
       waiters = (\<lambda>t. []) \<rparr>"

subsection \<open>\<open>run\<close>\<close>

definition enqueue :: "'v pool \<Rightarrow> nat \<Rightarrow> 'v pool" where
  \<comment> \<open>\<open>return new Promise (resolve => queue.push (() => this.run (task).then (resolve)))\<close>\<close>
  "enqueue s t = s\<lparr> queue := queue s @ [t], outer := (outer s)(t \<mapsto> Pending) \<rparr>"

definition execute :: "'v pool \<Rightarrow> nat \<Rightarrow> 'v pool" where
  \<comment> \<open>The branch that executes the task: \<open>task ()\<close> is called, \<open>p\<close> is made,
      \<open>numActive++\<close>, \<open>console.log (numActive)\<close>, \<open>pending.push (p)\<close>.\<close>
  "execute s t =
     s\<lparr> calls := calls s @ [t],
        promise := (promise s)(t \<mapsto> Pending),
        numActive := numActive s + 1,
        console := console s @ [numActive s + 1],
        pending := pending s @ [t] \<rparr>"

definition run :: "'v pool \<Rightarrow> nat \<Rightarrow> 'v pool" where
  "run s t = (if numActive s \<ge> int (maxConcurrency s) then enqueue s t else execute s t)"

subsection \<open>The settlement of a task\<close>

definition fulfil_one :: "'v pool \<Rightarrow> nat \<Rightarrow> 'v pool" where
  \<comment> \<open>The promise of task \<open>u\<close> is fulfilled with the value \<open>x\<close> of its task, and
      \<open>.then (resolve)\<close> passes the value to the promise \<open>run\<close> returned when it queued
      the task, if it did.\<close>
  "fulfil_one s u =
     (case raced s u of
        Some (Inr x) \<Rightarrow>
          s\<lparr> promise := (promise s)(u \<mapsto> Fulfilled x),
             outer := (if outer s u = None then outer s else (outer s)(u \<mapsto> Fulfilled x)) \<rparr>
      | _ \<Rightarrow> s)"

definition reject_one :: "error \<Rightarrow> 'v pool \<Rightarrow> nat \<Rightarrow> 'v pool" where
  \<comment> \<open>The promise of task \<open>u\<close> is rejected. \<open>.then (resolve)\<close> has no handler for a
      rejection: the promise \<open>run\<close> returned for a queued task stays as it is.\<close>
  "reject_one e s u = s\<lparr> promise := (promise s)(u \<mapsto> Rejected e) \<rparr>"

definition fulfil_chain :: "'v pool \<Rightarrow> nat \<Rightarrow> 'v pool" where
  "fulfil_chain s t = foldl fulfil_one s (t # waiters s t)"

definition reject_chain :: "'v pool \<Rightarrow> nat \<Rightarrow> error \<Rightarrow> 'v pool" where
  "reject_chain s t e = foldl (reject_one e) s (t # waiters s t)"

definition on_fulfilled :: "'v pool \<Rightarrow> nat \<Rightarrow> 'v pool" where
  \<comment> \<open>The handler \<open>x => { ... }\<close> of \<open>.then\<close>, for task \<open>t\<close>, whose value \<open>x\<close> is in
      \<open>raced\<close>: \<open>numActive--\<close>, \<open>console.log (numActive)\<close>, and then either the first
      closure of the queue is taken and called, and the promise of \<open>t\<close> waits for what
      it returns, or the promise of \<open>t\<close> is fulfilled.\<close>
  "on_fulfilled s t =
     (let s1 = s\<lparr> numActive := numActive s - 1, console := console s @ [numActive s - 1] \<rparr>
      in case queue s1 of
           [] \<Rightarrow> fulfil_chain s1 t
         | t' # rest \<Rightarrow>
             if numActive s1 < int (maxConcurrency s1)
             then (let s2 = run (s1\<lparr> queue := rest \<rparr>) t'
                   in s2\<lparr> waiters := (waiters s2)(t' := t # waiters s2 t) \<rparr>)
             else fulfil_chain s1 t)"

definition settle :: "'v pool \<Rightarrow> nat \<Rightarrow> error + 'v \<Rightarrow> 'v pool" where
  \<comment> \<open>The race of task \<open>t\<close> settles, if the task was started and the race is still
      open. \<open>.then\<close> has a handler for fulfilment only: a rejection goes straight to the
      promise of \<open>t\<close> and to the promises that wait for it.\<close>
  "settle s t r =
     (if t \<in> set (calls s) \<and> raced s t = None
      then (case r of
              Inr x \<Rightarrow> on_fulfilled (s\<lparr> raced := (raced s)(t \<mapsto> r) \<rparr>) t
            | Inl e \<Rightarrow> reject_chain (s\<lparr> raced := (raced s)(t \<mapsto> r) \<rparr>) t e)
      else s)"

fun step :: "'v pool \<Rightarrow> 'v event \<Rightarrow> 'v pool" where
  "step s Run = run (s\<lparr> submitted := submitted s + 1 \<rparr>) (submitted s)"
| "step s (Task_fulfils t x) = settle s t (Inr x)"
| "step s (Task_rejects t) = settle s t (Inl Thrown)"
| "step s (Timer_fires t) = settle s t (Inl TimedOut)"

definition run_events :: "'v pool \<Rightarrow> 'v event list \<Rightarrow> 'v pool" where
  "run_events s es = foldl step s es"

definition running :: "'v pool \<Rightarrow> nat list" where
  \<comment> \<open>The tasks in the state RUNNING: started, and the race not settled.\<close>
  "running s = filter (\<lambda>t. raced s t = None) (calls s)"

subsection \<open>\<open>all\<close>\<close>

datatype 'v joined = JPending | JFulfilled "'v list" | JRejected

fun promise_all :: "(nat \<rightharpoonup> 'v promise) \<Rightarrow> nat list \<Rightarrow> 'v joined" where
  \<comment> \<open>The state of \<open>Promise.all\<close> of the listed promises: rejected when one of them is,
      fulfilled with their values when all are.\<close>
  "promise_all ps [] = JFulfilled []"
| "promise_all ps (t # ts) =
     (case promise_all ps ts of
        JRejected \<Rightarrow> JRejected
      | JPending \<Rightarrow> (case ps t of Some (Rejected e) \<Rightarrow> JRejected | _ \<Rightarrow> JPending)
      | JFulfilled vs \<Rightarrow>
          (case ps t of
             Some (Fulfilled v) \<Rightarrow> JFulfilled (v # vs)
           | Some (Rejected e) \<Rightarrow> JRejected
           | _ \<Rightarrow> JPending))"

definition all :: "'v pool \<Rightarrow> 'v pool \<Rightarrow> 'v joined" where
  \<comment> \<open>\<open>Promise.all (pending)\<close>, called in the state \<open>s0\<close> and looked at in the state \<open>s\<close>:
      it awaits the promises that were in \<open>pending\<close> at the call.\<close>
  "all s0 s = promise_all (promise s) (pending s0)"

section \<open>Invariants of the task pool\<close>

text \<open>
  The predicates below are about the states a pool reaches; the properties of the pool
  are proved from them. \<open>sched\<close> collects the fields that the settlement of promises
  leaves alone.
\<close>

definition sched ::
  "'v pool \<Rightarrow> nat \<times> int \<times> nat list \<times> nat list \<times> nat \<times> nat list \<times> int list
     \<times> (nat \<rightharpoonup> error + 'v) \<times> (nat \<Rightarrow> nat list)" where
  "sched s = (maxConcurrency s, numActive s, queue s, pending s, submitted s, calls s, console s,
              raced s, waiters s)"

definition fulfilled_race :: "'v pool \<Rightarrow> nat \<Rightarrow> bool" where
  \<comment> \<open>The race of task \<open>t\<close> was fulfilled: the handler of \<open>.then\<close> has run for it.\<close>
  "fulfilled_race s t = (case raced s t of Some (Inr x) \<Rightarrow> True | _ \<Rightarrow> False)"

definition is_fulfilled :: "'v promise option \<Rightarrow> bool" where
  "is_fulfilled po = (case po of Some (Fulfilled v) \<Rightarrow> True | _ \<Rightarrow> False)"

definition line :: "'v pool \<Rightarrow> nat \<Rightarrow> nat list" where
  \<comment> \<open>Task \<open>t\<close> and the tasks whose promises wait for the promise of \<open>t\<close>.\<close>
  "line s t = t # waiters s t"

definition pool_inv :: "'v pool \<Rightarrow> bool" where
  \<comment> \<open>\<open>numActive\<close> counts the started tasks whose handler has not run; it stays at or
      below the ceiling; the tasks were started in the order of their arrival, and the
      queue holds the others in that order; tasks wait in the queue only while the
      ceiling is reached.\<close>
  "pool_inv s \<longleftrightarrow>
     numActive s = int (length (filter (\<lambda>t. \<not> fulfilled_race s t) (calls s)))
     \<and> numActive s \<le> int (maxConcurrency s)
     \<and> calls s @ queue s = [0..<submitted s]
     \<and> (queue s \<noteq> [] \<longrightarrow> int (maxConcurrency s) \<le> numActive s)
     \<and> (\<forall>t. raced s t \<noteq> None \<longrightarrow> t \<in> set (calls s))
     \<and> pending s = calls s"

definition chain_inv :: "'v pool \<Rightarrow> bool" where
  \<comment> \<open>No promise in the line of a started task whose handler has not run is fulfilled,
      and the lines of two such tasks share no task.\<close>
  "chain_inv s \<longleftrightarrow>
     (\<forall>t. t \<notin> set (calls s) \<longrightarrow> waiters s t = [])
   \<and> (\<forall>u \<in> set (calls s). set (waiters s u) \<subseteq> set (calls s))
   \<and> (\<forall>u \<in> set (calls s). \<not> fulfilled_race s u \<longrightarrow>
         (\<forall>a \<in> set (line s u). \<not> is_fulfilled (promise s a)))
   \<and> (\<forall>u \<in> set (calls s). \<forall>u' \<in> set (calls s).
         u \<noteq> u' \<longrightarrow> \<not> fulfilled_race s u \<longrightarrow> \<not> fulfilled_race s u' \<longrightarrow>
         set (line s u) \<inter> set (line s u') = {})"

definition snap_inv :: "nat \<Rightarrow> nat \<Rightarrow> 'v pool \<Rightarrow> bool" where
  \<comment> \<open>After a call of \<open>all\<close> that found \<open>k\<close> promises in \<open>pending\<close> and \<open>K\<close> tasks
      submitted: the line of a started task whose handler has not run holds one of the
      \<open>k\<close> promises, unless the task was submitted after the call.\<close>
  "snap_inv k K s \<longleftrightarrow>
     K \<le> submitted s
   \<and> (\<forall>u \<in> set (calls s). \<not> fulfilled_race s u \<longrightarrow> (\<exists>a \<in> set (line s u). a < k) \<or> K \<le> u)"




section \<open>The run coordinator\<close>





definition report_warnings :: "object list \<Rightarrow> object list" where
  "report_warnings tested =
     filter (\<lambda>t. \<not> truthy (get t ''failed'') \<and> truthy (get t ''hasWarnings'')) tested"

definition report_succeeded :: "object list \<Rightarrow> object list" where
  "report_succeeded tested =
     filter (\<lambda>t. \<not> truthy (get t ''failed'') \<and> \<not> truthy (get t ''hasWarnings'')) tested"







section \<open>Properties of the process runner\<close>

declare exec_from.simps [simp del] match_g.simps [simp del]

lemma exec_from_pos: "0 < i \<Longrightarrow> exec_from s i = None"
proof (induction s i rule: exec_from.induct)
  case (1 s i)
  then have "pattern_at s i = None" by (simp add: pattern_at_def)
  with 1 show ?case by (subst exec_from.simps) simp
qed

lemma exec_from_0:
  "exec_from s 0 = (case pattern_at s 0 of Some e \<Rightarrow> Some (0, e) | None \<Rightarrow> None)"
  by (subst exec_from.simps) (simp add: exec_from_pos split: option.splits)

lemma pattern_at_pos: "pattern_at s 0 = Some e \<Longrightarrow> 0 < e"
  by (auto simp: pattern_at_def Let_def split: if_splits list.splits)

text \<open>
  The search of \<open>match\<close> finds at most the match at index 0: the second search starts
  behind it, where \<open>^\<close> fails at every index.
\<close>

lemma js_match_eq:
  "js_match s = (case pattern_at s 0 of Some e \<Rightarrow> [take e s] | None \<Rightarrow> [])"
proof (cases "pattern_at s 0")
  case None
  then show ?thesis
    unfolding js_match_def by (subst match_g.simps) (simp add: exec_from_0)
next
  case (Some e)
  then have "0 < e" by (rule pattern_at_pos)
  then have "match_g s e = []"
    by (subst match_g.simps) (simp add: exec_from_pos)
  with Some \<open>0 < e\<close> show ?thesis
    unfolding js_match_def by (subst match_g.simps) (simp add: exec_from_0)
qed

lemma pattern_at_0_iff:
  "pattern_at s 0 = Some e \<longleftrightarrow>
     (\<exists>body rest. s = CHR ''['' # body @ CHR '']'' # rest \<and> body \<noteq> [] \<and> CHR '']'' \<notin> set body
        \<and> e = length body + 2)"
proof
  assume "pattern_at s 0 = Some e"
  then obtain r where s: "s = CHR ''['' # r"
    and b: "takeWhile (\<lambda>x. x \<noteq> CHR '']'') r \<noteq> []"
    and l: "length (takeWhile (\<lambda>x. x \<noteq> CHR '']'') r) < length r"
    and e: "e = length (takeWhile (\<lambda>x. x \<noteq> CHR '']'') r) + 2"
    by (auto simp: pattern_at_def Let_def split: if_splits list.splits)
  let ?b = "takeWhile (\<lambda>x. x \<noteq> CHR '']'') r"
  let ?d = "dropWhile (\<lambda>x. x \<noteq> CHR '']'') r"
  have r: "r = ?b @ ?d" by simp
  from l have "?d \<noteq> []" by (metis r append_Nil2 less_irrefl)
  then have "hd ?d = CHR '']''" using hd_dropWhile [of "\<lambda>x. x \<noteq> CHR '']''" r] by simp
  with \<open>?d \<noteq> []\<close> have d: "?d = CHR '']'' # tl ?d" by (cases ?d) simp_all
  have "CHR '']'' \<notin> set ?b" by (auto dest: set_takeWhileD)
  with s r d b e show "\<exists>body rest. s = CHR ''['' # body @ CHR '']'' # rest \<and> body \<noteq> []
        \<and> CHR '']'' \<notin> set body \<and> e = length body + 2"
    by metis
next
  assume "\<exists>body rest. s = CHR ''['' # body @ CHR '']'' # rest \<and> body \<noteq> [] \<and> CHR '']'' \<notin> set body
        \<and> e = length body + 2"
  then obtain body rest where s: "s = CHR ''['' # body @ CHR '']'' # rest" and b: "body \<noteq> []"
    and n: "CHR '']'' \<notin> set body" and e: "e = length body + 2" by blast
  from n have "takeWhile (\<lambda>x. x \<noteq> CHR '']'') (body @ CHR '']'' # rest) = body"
    by (induction body) auto
  with s b e show "pattern_at s 0 = Some e"
    by (simp add: pattern_at_def Let_def)
qed

lemma warnings_exec:
  "collect ([], [], False) (chunks ps) = (out, err, warned) \<Longrightarrow>
   warnings (exec strip ps) = js_match (strip err)"
  by (simp add: exec_def)

text \<open>
  Claim C6, as the code has it. After the colours are stripped, the bracketed marker
  (\<open>[\<close>, one or more characters other than \<open>]\<close>, then \<open>]\<close>) is extracted when it
  stands at the very start of the stripped error text, and it is then the only token;
  when the stripped text does not start with such a marker, no token is extracted,
  wherever else markers stand. For the error text \<open>ESC[33m[ratelimit]ESC[0m retrying\<close>
  the extracted token is exactly \<open>[ratelimit]\<close>.
\<close>

theorem C6_leading_marker_extracted:
  assumes "collect ([], [], False) (chunks ps) = (out, err, warned)"
  shows "(strip err = CHR ''['' # body @ CHR '']'' # rest \<and> body \<noteq> [] \<and> CHR '']'' \<notin> set body
            \<longrightarrow> warnings (exec strip ps) = [CHR ''['' # body @ '']''])
       \<and> ((\<nexists>b r. strip err = CHR ''['' # b @ CHR '']'' # r \<and> b \<noteq> [] \<and> CHR '']'' \<notin> set b)
            \<longrightarrow> warnings (exec strip ps) = [])
       \<and> warnings (exec ansi_strip
             \<lparr> chunks = [Stderr ((ESC # ''[33m[ratelimit]'') @ (ESC # ''[0m retrying''))],
               code = Some 0 \<rparr>) = [''[ratelimit]'']"
proof (intro conjI impI)
  assume a: "strip err = CHR ''['' # body @ CHR '']'' # rest \<and> body \<noteq> [] \<and> CHR '']'' \<notin> set body"
  then have "pattern_at (strip err) 0 = Some (length body + 2)"
    unfolding pattern_at_0_iff by blast
  with a show "warnings (exec strip ps) = [CHR ''['' # body @ '']'']"
    by (simp add: warnings_exec [OF assms] js_match_eq)
next
  assume "\<nexists>b r. strip err = CHR ''['' # b @ CHR '']'' # r \<and> b \<noteq> [] \<and> CHR '']'' \<notin> set b"
  then have "\<And>e. pattern_at (strip err) 0 \<noteq> Some e"
    unfolding pattern_at_0_iff by blast
  then have "pattern_at (strip err) 0 = None"
    by (cases "pattern_at (strip err) 0") blast+
  then show "warnings (exec strip ps) = []"
    by (simp add: warnings_exec [OF assms] js_match_eq)
next
  show "warnings (exec ansi_strip
             \<lparr> chunks = [Stderr ((ESC # ''[33m[ratelimit]'') @ (ESC # ''[0m retrying''))],
               code = Some 0 \<rparr>) = [''[ratelimit]'']"
    by (simp add: exec_def js_match_eq pattern_at_def ESC_def sgr_param_def)
qed

theorem C6_leading_marker_extracted_witness:
  "warnings (exec ansi_strip \<lparr> chunks = [Stderr ''[warn'', Stdout ''ok'', Stderr ''ing] x''],
                                code = Some 1 \<rparr>) = [''[warning]'']"
proof -
  have c: "collect ([], [], False)
             (chunks \<lparr> chunks = [Stderr ''[warn'', Stdout ''ok'', Stderr ''ing] x''],
                       code = Some 1 \<rparr>) = (''[warnoking] x'', ''[warning] x'', True)"
    by simp
  have s: "ansi_strip ''[warning] x'' = CHR ''['' # ''warning'' @ CHR '']'' # '' x''
           \<and> ''warning'' \<noteq> [] \<and> CHR '']'' \<notin> set ''warning''"
    by (simp add: ESC_def)
  from C6_leading_marker_extracted [OF c, of ansi_strip "''warning''" "'' x''"] s
  show ?thesis by simp
qed

text \<open>
  The claim as the specification words it fails: of two markers in the error text only
  the leading one is extracted.
\<close>

theorem C6_counterexample:
  "spec_tokens (ansi_strip ''[a] [b]'') = [''[a]'', ''[b]'']
   \<and> warnings (exec ansi_strip \<lparr> chunks = [Stderr ''[a] [b]''], code = Some 0 \<rparr>) = [''[a]'']"
  by (simp add: exec_def js_match_eq pattern_at_def ESC_def)

text \<open>
  Claim C10. The warnings of a process result hold at most one token, and a token is
  there only when the stripped error text itself begins with a bracketed marker; the
  token is that marker.
\<close>

theorem C10_at_most_one_warning:
  assumes "collect ([], [], False) (chunks ps) = (out, err, warned)"
  shows "length (warnings (exec strip ps)) \<le> 1
       \<and> (warnings (exec strip ps) \<noteq> [] \<longrightarrow>
            (\<exists>body rest. strip err = CHR ''['' # body @ CHR '']'' # rest \<and> body \<noteq> []
               \<and> CHR '']'' \<notin> set body \<and> warnings (exec strip ps) = [CHR ''['' # body @ '']'']))"
proof (cases "pattern_at (strip err) 0")
  case None
  then show ?thesis by (simp add: warnings_exec [OF assms] js_match_eq)
next
  case (Some e)
  then obtain body rest where "strip err = CHR ''['' # body @ CHR '']'' # rest" "body \<noteq> []"
    "CHR '']'' \<notin> set body" "e = length body + 2"
    unfolding pattern_at_0_iff by blast
  with Some show ?thesis by (simp add: warnings_exec [OF assms] js_match_eq)
qed

theorem C10_at_most_one_warning_witness:
  "length (warnings (exec ansi_strip \<lparr> chunks = [Stderr ''[x] [y] [z]''], code = None \<rparr>)) \<le> 1
   \<and> warnings (exec ansi_strip \<lparr> chunks = [Stderr ''[x] [y] [z]''], code = None \<rparr>) \<noteq> []
   \<and> (\<exists>body rest. ansi_strip ''[x] [y] [z]'' = CHR ''['' # body @ CHR '']'' # rest \<and> body \<noteq> []
          \<and> CHR '']'' \<notin> set body
          \<and> warnings (exec ansi_strip \<lparr> chunks = [Stderr ''[x] [y] [z]''], code = None \<rparr>)
              = [CHR ''['' # body @ '']''])"
proof -
  have c: "collect ([], [], False) (chunks \<lparr> chunks = [Stderr ''[x] [y] [z]''], code = None \<rparr>)
           = (''[x] [y] [z]'', ''[x] [y] [z]'', True)"
    by simp
  have n: "warnings (exec ansi_strip \<lparr> chunks = [Stderr ''[x] [y] [z]''], code = None \<rparr>) \<noteq> []"
    by (simp add: exec_def js_match_eq pattern_at_def ESC_def)
  from C10_at_most_one_warning [OF c, of ansi_strip] n show ?thesis by blast
qed

section \<open>Properties of the unit executor\<close>

lemma truthy_js_find: "truthy (js_find P ts) = (\<exists>t\<in>set ts. P t)"
proof (cases "find P ts")
  case None
  then have "\<not> (\<exists>t\<in>set ts. P t)" by (auto simp: find_None_iff)
  with None show ?thesis by (simp add: js_find_def)
next
  case (Some t)
  then have "P t \<and> t \<in> set ts"
    unfolding find_Some_iff by (auto simp: in_set_conv_nth)
  with Some show ?thesis by (auto simp: js_find_def)
qed

lemma foldl_append_concat: "foldl (\<lambda>total t. total @ f t) acc ts = acc @ concat (map f ts)"
  by (induction ts arbitrary: acc) simp_all

lemma loop_spawned:
  "\<exists>new. spawned (snd (sequentialMap_loop res input (run_test env strip) w)) = spawned w @ new
     \<and> map fst new = map exec_args input
     \<and> chained (now w) new"
proof (induction input arbitrary: res w)
  case Nil
  then show ?case by simp
next
  case (Cons t input)
  obtain ps d where e: "env (exec_args t) (now w) = (ps, d)"
    by (cases "env (exec_args t) (now w)")
  let ?w = "w\<lparr> now := now w + d, spawned := spawned w @ [(exec_args t, now w, now w + d)] \<rparr>"
  let ?res = "res @ [assign t (exec strip ps)]"
  from Cons.IH [of ?res ?w]
  obtain new where n:
    "spawned (snd (sequentialMap_loop ?res input (run_test env strip) ?w)) = spawned ?w @ new"
    "map fst new = map exec_args input" "chained (now ?w) new"
    by blast
  have "sequentialMap_loop res (t # input) (run_test env strip) w
        = sequentialMap_loop ?res input (run_test env strip) ?w"
    by (simp add: run_test_def await_exec_def e)
  with n show ?case
    by (intro exI [of _ "(exec_args t, now w, now w + d) # new"]) simp
qed

lemma chained_nth:
  "chained t xs \<Longrightarrow> Suc i < length xs \<Longrightarrow> snd (snd (xs ! i)) \<le> fst (snd (xs ! Suc i))"
proof (induction t xs arbitrary: i rule: chained.induct)
  case (1 t)
  then show ?case by simp
next
  case (2 t argv s e r)
  show ?case
  proof (cases i)
    case 0
    with 2 show ?thesis by (cases r) auto
  next
    case (Suc j)
    with 2 show ?thesis by simp
  qed
qed

lemma chained_nth_le:
  "chained t xs \<Longrightarrow> i < length xs \<Longrightarrow> fst (snd (xs ! i)) \<le> snd (snd (xs ! i))"
proof (induction t xs arbitrary: i rule: chained.induct)
  case (1 t)
  then show ?case by simp
next
  case (2 t argv s e r)
  then show ?case by (cases i) auto
qed

lemma testExchange_spawned:
  "\<exists>new. spawned (snd (testExchange env strip c exchange w)) = spawned w @ new
     \<and> map fst new = map exec_args (scheduledTests c (test_args c exchange))
     \<and> chained (now w) new"
proof -
  let ?sched = "scheduledTests c (test_args c exchange)"
  from loop_spawned [of "[]" ?sched env strip w]
  obtain new where n:
    "spawned (snd (sequentialMap_loop [] ?sched (run_test env strip) w)) = spawned w @ new"
    "map fst new = map exec_args ?sched" "chained (now w) new" by blast
  have "spawned (snd (testExchange env strip c exchange w))
        = spawned (snd (sequentialMap_loop [] ?sched (run_test env strip) w))"
    by (simp add: testExchange_def completeTests_def sequentialMap_def split: prod.splits)
  with n show ?thesis by auto
qed

text \<open>
  Claim C5. The processes one call of \<open>testExchange\<close> spawns are as many as the
  scheduled tests, and they run strictly one after the other: each exits no earlier
  than it was spawned, and the next is spawned no earlier than the one before it
  exited, so no two of them overlap in time.
\<close>

theorem C5_sub_invocations_sequential:
  assumes "spawned (snd (testExchange env strip c exchange w)) = spawned w @ new"
  shows "length new = length (scheduledTests c (test_args c exchange))
       \<and> (\<forall>i. i < length new \<longrightarrow> fst (snd (new ! i)) \<le> snd (snd (new ! i)))
       \<and> (\<forall>i. 0 < i \<and> i < length new \<longrightarrow> snd (snd (new ! (i - 1))) \<le> fst (snd (new ! i)))"
proof -
  from testExchange_spawned [of env strip c exchange w] assms
  have m: "map fst new = map exec_args (scheduledTests c (test_args c exchange))"
    and ch: "chained (now w) new" by auto
  from m have "length new = length (scheduledTests c (test_args c exchange))"
    by (rule map_eq_imp_length_eq)
  moreover have "\<forall>i. i < length new \<longrightarrow> fst (snd (new ! i)) \<le> snd (snd (new ! i))"
    using chained_nth_le [OF ch] by blast
  moreover have "\<forall>i. 0 < i \<and> i < length new \<longrightarrow> snd (snd (new ! (i - 1))) \<le> fst (snd (new ! i))"
  proof (intro allI impI)
    fix i assume "0 < i \<and> i < length new"
    then have "Suc (i - 1) < length new" "Suc (i - 1) = i" by simp_all
    with chained_nth [OF ch, of "i - 1"]
    show "snd (snd (new ! (i - 1))) \<le> fst (snd (new ! i))" by simp
  qed
  ultimately show ?thesis by blast
qed

lemmas unit_defs = testExchange_def completeTests_def sequentialMap_def run_test_def
  await_exec_def scheduledTests_def selectedTests_def allTests_def selected_def parse_args_def
  parse_arg_def initial_cli_def startsWith_def test_args_def

theorem C5_sub_invocations_sequential_witness:
  "spawned (snd (testExchange (\<lambda>argv t. (\<lparr> chunks = [], code = Some 0 \<rparr>, 5)) ansi_strip
      (parse_args [''--js'', ''--php'']) ''kraken''
      \<lparr> now = 100, spawned = [], numExchangesTested = 0, progress = [] \<rparr>))
     = [([''node'', ''test/test.js'', ''kraken''], 100, 105),
        ([''php'', ''-f'', ''test/test.php'', ''kraken''], 105, 110)]
   \<and> length (scheduledTests (parse_args [''--js'', ''--php''])
               (test_args (parse_args [''--js'', ''--php'']) ''kraken'')) = 2
   \<and> snd (snd ([([''node'', ''test/test.js'', ''kraken''], 100 :: nat, 105 :: nat),
                  ([''php'', ''-f'', ''test/test.php'', ''kraken''], 105, 110)] ! 0))
       \<le> fst (snd ([([''node'', ''test/test.js'', ''kraken''], 100 :: nat, 105 :: nat),
                     ([''php'', ''-f'', ''test/test.php'', ''kraken''], 105, 110)] ! 1))"
proof -
  let ?w = "\<lparr> now = 100, spawned = [], numExchangesTested = 0, progress = [] \<rparr>"
  let ?new = "[([''node'', ''test/test.js'', ''kraken''], 100 :: nat, 105 :: nat),
               ([''php'', ''-f'', ''test/test.php'', ''kraken''], 105, 110)]"
  have e: "spawned (snd (testExchange (\<lambda>argv t. (\<lparr> chunks = [], code = Some 0 \<rparr>, 5)) ansi_strip
             (parse_args [''--js'', ''--php'']) ''kraken'' ?w)) = spawned ?w @ ?new"
    by (simp add: unit_defs)
  note t = C5_sub_invocations_sequential [OF e]
  from t have "length ?new = length (scheduledTests (parse_args [''--js'', ''--php''])
                 (test_args (parse_args [''--js'', ''--php'']) ''kraken''))"
    by blast
  moreover from t have "0 < (1 :: nat) \<and> 1 < length ?new
      \<longrightarrow> snd (snd (?new ! (1 - 1))) \<le> fst (snd (?new ! 1))"
    by blast
  ultimately show ?thesis using e by simp
qed

text \<open>
  Claim C7, as the code has it. For every sequence of complete tests the field
  \<open>failed\<close> of the outcome is truthy exactly when a sub-result failed, and the field
  \<open>hasWarnings\<close> is truthy exactly when a sub-result has warnings (each holds the first
  such sub-result, or \<open>undefined\<close>). The concatenation of the sub-results' warnings in
  the order of invocation is the constant \<open>warnings\<close> of \<open>testExchange\<close>, which goes
  into the progress line; the outcome returned has no field \<open>warnings\<close>.
\<close>

theorem C7_outcome_aggregation:
  "truthy (get (outcome exchange ts) ''failed'') = (\<exists>t\<in>set ts. failed t)
   \<and> truthy (get (outcome exchange ts) ''hasWarnings'') = (\<exists>t\<in>set ts. hasWarnings t)
   \<and> unit_warnings ts = concat (map warnings ts)
   \<and> get (outcome exchange ts) ''warnings'' = Undefined"
  by (simp add: get_def outcome_def truthy_js_find unit_warnings_def foldl_append_concat)

text \<open>
  The claim as the specification words it fails on the field \<open>warnings\<close>: for a unit
  whose only test writes a marker to its error stream, the concatenation of the
  warnings is \<open>[ratelimit]\<close>, it is printed in the progress line, and the field
  \<open>warnings\<close> of the outcome reads as \<open>undefined\<close>.
\<close>

theorem C7_counterexample:
  "get (fst (testExchange
       (\<lambda>argv t. (\<lparr> chunks = [Stderr ''[ratelimit] retrying''], code = Some 0 \<rparr>, 1)) ansi_strip
       (parse_args [''--php'']) ''kraken''
       \<lparr> now = 0, spawned = [], numExchangesTested = 0, progress = [] \<rparr>)) ''warnings'' = Undefined
   \<and> concat (map warnings (fst (completeTests
       (\<lambda>argv t. (\<lparr> chunks = [Stderr ''[ratelimit] retrying''], code = Some 0 \<rparr>, 1)) ansi_strip
       (scheduledTests (parse_args [''--php'']) [''kraken''])
       \<lparr> now = 0, spawned = [], numExchangesTested = 0, progress = [] \<rparr>))) = [''[ratelimit]'']
   \<and> progress (snd (testExchange
       (\<lambda>argv t. (\<lparr> chunks = [Stderr ''[ratelimit] retrying''], code = Some 0 \<rparr>, 1)) ansi_strip
       (parse_args [''--php'']) ''kraken''
       \<lparr> now = 0, spawned = [], numExchangesTested = 0, progress = [] \<rparr>))
      = [(''kraken'', ''[ratelimit]'')]"
  by (simp add: unit_defs get_def outcome_def unit_warnings_def exec_def js_match_eq pattern_at_def
      ESC_def assign_def proc_result.extend_def status_text_def js_find_def)

text \<open>
  Claim C8, as the code has it. The scheduled tests are the entries of the fixed table
  whose key is selected, in the order of the table (JavaScript, Python, Python 3,
  PHP), and the whole table when no key of the table is selected. With the flags of
  PHP and Python 3 only, they are Python 3 and then PHP; with no flags they are all
  four. One call of \<open>testExchange\<close> spawns exactly the processes of its scheduled
  tests, in that order.
\<close>

theorem C8_scheduled_languages:
  "map language (scheduledTests c args) =
     (if selected c ''--js'' \<or> selected c ''--python'' \<or> selected c ''--python3''
         \<or> selected c ''--php''
      then (if selected c ''--js'' then [''JavaScript''] else [])
         @ (if selected c ''--python'' then [''Python''] else [])
         @ (if selected c ''--python3'' then [''Python 3''] else [])
         @ (if selected c ''--php'' then [''PHP''] else [])
      else [''JavaScript'', ''Python'', ''Python 3'', ''PHP''])
   \<and> map language (scheduledTests (parse_args [''--php'', ''--python3'']) args)
       = [''Python 3'', ''PHP'']
   \<and> map language (scheduledTests (parse_args []) args)
       = [''JavaScript'', ''Python'', ''Python 3'', ''PHP'']
   \<and> (\<exists>new. spawned (snd (testExchange env strip c exchange w)) = spawned w @ new
          \<and> map fst new = map exec_args (scheduledTests c (test_args c exchange)))"
proof (intro conjI)
  show "\<exists>new. spawned (snd (testExchange env strip c exchange w)) = spawned w @ new
          \<and> map fst new = map exec_args (scheduledTests c (test_args c exchange))"
    using testExchange_spawned [of env strip c exchange w] by blast
qed (simp_all add: scheduledTests_def selectedTests_def allTests_def selected_def parse_args_def
  parse_arg_def initial_cli_def startsWith_def)

text \<open>
  The order the claim gives fails: with the flags \<open>--php --python3\<close> the first process
  spawned for a target is \<open>python3\<close> and the second is \<open>php\<close>.
\<close>

theorem C8_counterexample:
  "map (\<lambda>(argv, s, e). hd argv)
     (spawned (snd (testExchange (\<lambda>argv t. (\<lparr> chunks = [], code = Some 0 \<rparr>, 1)) ansi_strip
        (parse_args [''--php'', ''--python3'']) ''kraken''
        \<lparr> now = 0, spawned = [], numExchangesTested = 0, progress = [] \<rparr>)))
   = [''python3'', ''php'']"
  by (simp add: unit_defs)

section \<open>Properties of the task pool\<close>

subsection \<open>Settling promises leaves the schedule alone\<close>

lemma sched_eqD:
  assumes "sched s' = sched s"
  shows "maxConcurrency s' = maxConcurrency s" "numActive s' = numActive s" "queue s' = queue s"
    "pending s' = pending s" "submitted s' = submitted s" "calls s' = calls s"
    "console s' = console s" "raced s' = raced s" "waiters s' = waiters s"
  using assms by (simp_all add: sched_def)

lemma sched_fulfil_one: "sched (fulfil_one s u) = sched s"
  by (simp add: sched_def fulfil_one_def split: option.splits sum.splits)

lemma sched_reject_one: "sched (reject_one e s u) = sched s"
  by (simp add: sched_def reject_one_def)

lemma sched_foldl_fulfil: "sched (foldl fulfil_one s us) = sched s"
  by (induction us arbitrary: s) (simp_all add: sched_fulfil_one)

lemma sched_foldl_reject: "sched (foldl (reject_one e) s us) = sched s"
  by (induction us arbitrary: s) (simp_all add: sched_reject_one)

lemma sched_fulfil_chain: "sched (fulfil_chain s t) = sched s"
  by (simp add: fulfil_chain_def sched_foldl_fulfil sched_fulfil_one)

lemma sched_reject_chain: "sched (reject_chain s t e) = sched s"
  by (simp add: reject_chain_def sched_foldl_reject sched_reject_one)

lemmas fulfil_chain_fields [simp] = sched_eqD [OF sched_fulfil_chain]

lemmas reject_chain_fields [simp] = sched_eqD [OF sched_reject_chain]

subsection \<open>The scheduling invariant\<close>

lemma pool_inv_init: "pool_inv (TaskPool n)"
  by (simp add: pool_inv_def TaskPool_def)

lemma filter_drop_one:
  assumes "distinct xs" "t \<in> set xs" "P t"
  shows "length (filter (\<lambda>u. u \<noteq> t \<and> P u) xs) + 1 = length (filter P xs)"
  using assms
proof (induction xs)
  case Nil
  then show ?case by simp
next
  case (Cons a xs)
  show ?case
  proof (cases "a = t")
    case True
    with Cons.prems have "t \<notin> set xs" by simp
    then have "filter (\<lambda>u. u \<noteq> t \<and> P u) xs = filter P xs"
      by (intro filter_cong) auto
    with True Cons.prems show ?thesis by simp
  next
    case False
    with Cons show ?thesis by simp
  qed
qed

lemma pool_inv_distinct: "pool_inv s \<Longrightarrow> distinct (calls s @ queue s)"
  by (simp add: pool_inv_def del: distinct_append)

lemma pool_inv_fresh:
  assumes "pool_inv s"
  shows "submitted s \<notin> set (calls s)" "raced s (submitted s) = None"
proof -
  from assms have "set (calls s) \<union> set (queue s) = {0..<submitted s}"
    by (metis pool_inv_def set_append set_upt)
  then show "submitted s \<notin> set (calls s)" by auto
  with assms show "raced s (submitted s) = None" by (auto simp: pool_inv_def)
qed

lemma pool_inv_run:
  assumes "pool_inv s"
  shows "pool_inv (step s Run)"
proof (cases "int (maxConcurrency s) \<le> numActive s")
  case True
  with assms show ?thesis
    by (simp add: pool_inv_def run_def enqueue_def fulfilled_race_def)
next
  case False
  with assms have q: "queue s = []" by (auto simp: pool_inv_def)
  from pool_inv_fresh [OF assms] have "\<not> fulfilled_race s (submitted s)"
    by (simp add: fulfilled_race_def)
  with assms False q show ?thesis
    by (auto simp: pool_inv_def run_def execute_def fulfilled_race_def)
qed

lemma settle_ignored:
  assumes "\<not> (t \<in> set (calls s) \<and> raced s t = None)"
  shows "settle s t r = s"
  unfolding settle_def by (simp only: assms if_False)

lemma fulfilled_race_raced: "raced s' = raced s \<Longrightarrow> fulfilled_race s' = fulfilled_race s"
  by (auto simp: fulfilled_race_def fun_eq_iff)

lemma pool_inv_reject:
  assumes "pool_inv s"
  shows "pool_inv (settle s t (Inl e))"
proof (cases "t \<in> set (calls s) \<and> raced s t = None")
  case False
  with assms show ?thesis by (simp add: settle_ignored)
next
  case True
  let ?s0 = "s\<lparr> raced := (raced s)(t \<mapsto> Inl e) \<rparr>"
  have st: "settle s t (Inl e) = reject_chain ?s0 t e" using True by (simp add: settle_def)
  have "fulfilled_race ?s0 = fulfilled_race s"
    using True by (auto simp: fulfilled_race_def fun_eq_iff)
  moreover have "fulfilled_race (reject_chain ?s0 t e) = fulfilled_race ?s0"
    by (rule fulfilled_race_raced) simp
  ultimately have "fulfilled_race (reject_chain ?s0 t e) = fulfilled_race s" by simp
  with assms True show ?thesis
    unfolding st by (auto simp: pool_inv_def)
qed

lemma active_after_fulfil:
  assumes "pool_inv s" "t \<in> set (calls s)" "raced s t = None"
  shows "int (length (filter (\<lambda>u. \<not> fulfilled_race (s\<lparr> raced := (raced s)(t \<mapsto> Inr x) \<rparr>) u) (calls s)))
         = numActive s - 1"
proof -
  have d: "distinct (calls s)" using pool_inv_distinct [OF assms(1)] by simp
  have nf: "\<not> fulfilled_race s t" using assms(3) by (simp add: fulfilled_race_def)
  have "(\<lambda>u. \<not> fulfilled_race (s\<lparr> raced := (raced s)(t \<mapsto> Inr x) \<rparr>) u)
        = (\<lambda>u. u \<noteq> t \<and> \<not> fulfilled_race s u)"
    by (auto simp: fulfilled_race_def)
  moreover from filter_drop_one [OF d assms(2), of "\<lambda>u. \<not> fulfilled_race s u"] nf
  have "length (filter (\<lambda>u. u \<noteq> t \<and> \<not> fulfilled_race s u) (calls s)) + 1
        = length (filter (\<lambda>u. \<not> fulfilled_race s u) (calls s))" by simp
  ultimately show ?thesis using assms(1) by (simp add: pool_inv_def)
qed

lemma on_fulfilled_empty:
  "queue s = [] \<Longrightarrow>
   on_fulfilled s t
     = fulfil_chain (s\<lparr> numActive := numActive s - 1, console := console s @ [numActive s - 1] \<rparr>) t"
  by (simp add: on_fulfilled_def Let_def)

lemma on_fulfilled_next:
  "queue s = t' # rest \<Longrightarrow> numActive s - 1 < int (maxConcurrency s) \<Longrightarrow>
   on_fulfilled s t
     = s\<lparr> numActive := numActive s, console := console s @ [numActive s - 1, numActive s],
          queue := rest, calls := calls s @ [t'], promise := (promise s)(t' \<mapsto> Pending),
          pending := pending s @ [t'], waiters := (waiters s)(t' := t # waiters s t) \<rparr>"
  by (simp add: on_fulfilled_def Let_def run_def execute_def)

lemma pool_inv_fulfil:
  assumes "pool_inv s"
  shows "pool_inv (settle s t (Inr x))"
proof (cases "t \<in> set (calls s) \<and> raced s t = None")
  case False
  with assms show ?thesis by (simp add: settle_ignored)
next
  case True
  let ?s0 = "s\<lparr> raced := (raced s)(t \<mapsto> Inr x) \<rparr>"
  have st: "settle s t (Inr x) = on_fulfilled ?s0 t" using True by (simp add: settle_def)
  from True have act: "int (length (filter (\<lambda>u. \<not> fulfilled_race ?s0 u) (calls s))) = numActive s - 1"
    using active_after_fulfil [OF assms] by simp
  have fr: "\<And>s' :: 'a pool. raced s' = raced ?s0 \<Longrightarrow> fulfilled_race s' = fulfilled_race ?s0"
    by (auto simp: fulfilled_race_def fun_eq_iff)
  show ?thesis
  proof (cases "queue s")
    case Nil
    let ?s1 = "?s0\<lparr> numActive := numActive ?s0 - 1, console := console ?s0 @ [numActive ?s0 - 1] \<rparr>"
    have o: "on_fulfilled ?s0 t = fulfil_chain ?s1 t" using Nil by (simp add: on_fulfilled_empty)
    have "fulfilled_race (fulfil_chain ?s1 t) = fulfilled_race ?s0" by (rule fr) simp
    with assms True Nil act show ?thesis
      unfolding st o by (auto simp: pool_inv_def)
  next
    case (Cons t' rest)
    from assms have lt: "numActive ?s0 - 1 < int (maxConcurrency ?s0)" by (simp add: pool_inv_def)
    have q: "queue ?s0 = t' # rest" using Cons by simp
    note o = on_fulfilled_next [OF q lt, of t]
    from assms Cons have t'n: "t' \<notin> set (calls s)"
      using pool_inv_distinct [OF assms] by auto
    with assms have "raced s t' = None" by (auto simp: pool_inv_def)
    moreover from t'n True have "t' \<noteq> t" by auto
    ultimately have nf: "\<not> fulfilled_race ?s0 t'" by (simp add: fulfilled_race_def)
    have "fulfilled_race (on_fulfilled ?s0 t) = fulfilled_race ?s0"
      by (rule fr) (simp add: o)
    with assms True Cons act nf show ?thesis
      unfolding st by (auto simp: pool_inv_def o)
  qed
qed

lemma pool_inv_step: "pool_inv s \<Longrightarrow> pool_inv (step s e)"
proof (cases e)
  case Run
  assume "pool_inv s"
  with Run show ?thesis using pool_inv_run [of s] by simp
qed (simp_all add: pool_inv_reject pool_inv_fulfil)

lemma pool_inv_events: "pool_inv s \<Longrightarrow> pool_inv (run_events s es)"
  unfolding run_events_def by (induction es arbitrary: s) (simp_all add: pool_inv_step)

subsection \<open>The cases of a step\<close>

text \<open>
  In a state that satisfies the scheduling invariant an event is ignored, or it does
  one of five things. The closure taken from the queue by a handler always finds
  \<open>numActive\<close> below the ceiling, so its call of \<open>run\<close> executes the task.
\<close>

lemma step_cases [consumes 1, case_names ignored enqueued executed rejected fulfilled_last fulfilled_next]:
  assumes inv: "pool_inv s"
  obtains "step s e = s"
  | "e = Run" "int (maxConcurrency s) \<le> numActive s"
      "step s e = s\<lparr> submitted := submitted s + 1, queue := queue s @ [submitted s],
                        outer := (outer s)(submitted s \<mapsto> Pending) \<rparr>"
  | "e = Run" "numActive s < int (maxConcurrency s)" "queue s = []"
      "submitted s \<notin> set (calls s)"
      "step s e = s\<lparr> submitted := submitted s + 1, calls := calls s @ [submitted s],
                        promise := (promise s)(submitted s \<mapsto> Pending),
                        numActive := numActive s + 1,
                        console := console s @ [numActive s + 1],
                        pending := pending s @ [submitted s] \<rparr>"
  | t err where "e = Task_rejects t \<and> err = Thrown \<or> e = Timer_fires t \<and> err = TimedOut"
      "t \<in> set (calls s)" "raced s t = None"
      "step s e = reject_chain (s\<lparr> raced := (raced s)(t \<mapsto> Inl err) \<rparr>) t err"
  | t x where "e = Task_fulfils t x" "t \<in> set (calls s)" "raced s t = None" "queue s = []"
      "step s e = fulfil_chain (s\<lparr> raced := (raced s)(t \<mapsto> Inr x),
                                     numActive := numActive s - 1,
                                     console := console s @ [numActive s - 1] \<rparr>) t"
  | t x t' rest where "e = Task_fulfils t x" "t \<in> set (calls s)" "raced s t = None"
      "queue s = t' # rest" "t' \<notin> set (calls s)"
      "step s e = s\<lparr> raced := (raced s)(t \<mapsto> Inr x),
                        console := console s @ [numActive s - 1, numActive s],
                        queue := rest, calls := calls s @ [t'],
                        promise := (promise s)(t' \<mapsto> Pending),
                        pending := pending s @ [t'],
                        waiters := (waiters s)(t' := t # waiters s t) \<rparr>"
proof (cases e)
  case Run
  show ?thesis
  proof (cases "int (maxConcurrency s) \<le> numActive s")
    case True
    with Run that(2) show ?thesis by (simp add: run_def enqueue_def)
  next
    case False
    with inv have "queue s = []" by (auto simp: pool_inv_def)
    with False Run that(3) pool_inv_fresh(1) [OF inv] show ?thesis
      by (simp add: run_def execute_def)
  qed
next
  case (Task_rejects t)
  show ?thesis
  proof (cases "t \<in> set (calls s) \<and> raced s t = None")
    case True
    with Task_rejects that(4) [of t Thrown] show ?thesis by (simp add: settle_def)
  next
    case False
    with Task_rejects that(1) show ?thesis by (simp add: settle_ignored)
  qed
next
  case (Timer_fires t)
  show ?thesis
  proof (cases "t \<in> set (calls s) \<and> raced s t = None")
    case True
    with Timer_fires that(4) [of t TimedOut] show ?thesis by (simp add: settle_def)
  next
    case False
    with Timer_fires that(1) show ?thesis by (simp add: settle_ignored)
  qed
next
  case (Task_fulfils t x)
  show ?thesis
  proof (cases "t \<in> set (calls s) \<and> raced s t = None")
    case False
    with Task_fulfils that(1) show ?thesis by (simp add: settle_ignored)
  next
    case True
    let ?s0 = "s\<lparr> raced := (raced s)(t \<mapsto> Inr x) \<rparr>"
    have st: "step s e = on_fulfilled ?s0 t" using True Task_fulfils by (simp add: settle_def)
    show ?thesis
    proof (cases "queue s")
      case Nil
      then have "on_fulfilled ?s0 t
        = fulfil_chain (?s0\<lparr> numActive := numActive ?s0 - 1,
                               console := console ?s0 @ [numActive ?s0 - 1] \<rparr>) t"
        by (simp add: on_fulfilled_empty)
      with st True Nil Task_fulfils that(5) [of t x] show ?thesis by simp
    next
      case (Cons t' rest)
      from inv have lt: "numActive ?s0 - 1 < int (maxConcurrency ?s0)" by (simp add: pool_inv_def)
      have q: "queue ?s0 = t' # rest" using Cons by simp
      from Cons have t'n: "t' \<notin> set (calls s)"
        using pool_inv_distinct [OF inv] by auto
      from on_fulfilled_next [OF q lt, of t] st True Cons t'n Task_fulfils that(6) [of t x t' rest]
      show ?thesis by simp
    qed
  qed
qed

subsection \<open>The lines of promises\<close>

lemma chain_inv_init: "chain_inv (TaskPool n)"
  by (simp add: chain_inv_def TaskPool_def)

lemma promise_foldl_fulfil_other:
  "a \<notin> set us \<Longrightarrow> promise (foldl fulfil_one s us) a = promise s a"
  by (induction us arbitrary: s) (auto simp: fulfil_one_def split: option.splits sum.splits)

lemma promise_foldl_reject:
  "promise (foldl (reject_one e) s us) a = (if a \<in> set us then Some (Rejected e) else promise s a)"
  by (induction us arbitrary: s) (auto simp: reject_one_def)

lemma promise_fulfil_chain_other:
  "a \<notin> set (line s t) \<Longrightarrow> promise (fulfil_chain s t) a = promise s a"
  by (simp add: fulfil_chain_def line_def promise_foldl_fulfil_other del: foldl_Cons)

lemma promise_reject_chain:
  "promise (reject_chain s t e) a = (if a \<in> set (line s t) then Some (Rejected e) else promise s a)"
  by (simp add: reject_chain_def line_def promise_foldl_reject del: foldl_Cons)

lemma line_chain [simp]:
  "line (fulfil_chain s t) = line s" "line (reject_chain s t e) = line s"
  by (simp_all add: line_def fun_eq_iff)

lemma fulfilled_race_chain [simp]:
  "fulfilled_race (fulfil_chain s t) = fulfilled_race s"
  "fulfilled_race (reject_chain s t e) = fulfilled_race s"
  by (rule fulfilled_race_raced, simp)+

lemma chain_inv_step:
  assumes p: "pool_inv s" and c: "chain_inv s"
  shows "chain_inv (step s e)"
  using p
proof (cases rule: step_cases [where s = s and e = e])
  case ignored
  with c show ?thesis by simp
next
  case enqueued
  with c show ?thesis by (simp add: chain_inv_def line_def fulfilled_race_def)
next
  case executed
  from c executed(4) have w: "waiters s (submitted s) = []" by (simp add: chain_inv_def)
  from c show ?thesis
    unfolding executed(5) chain_inv_def line_def fulfilled_race_def is_fulfilled_def
    using executed(4) w by (auto split: option.splits sum.splits)
next
  case (rejected t err)
  let ?s0 = "s\<lparr> raced := (raced s)(t \<mapsto> Inl err) \<rparr>"
  have fr: "fulfilled_race ?s0 = fulfilled_race s"
    using rejected(3) by (auto simp: fulfilled_race_def fun_eq_iff)
  have l: "line ?s0 = line s" by (simp add: line_def fun_eq_iff)
  from c show ?thesis
    unfolding rejected(4) chain_inv_def
    by (simp add: fr l promise_reject_chain is_fulfilled_def)
next
  case (fulfilled_last t x)
  let ?s0 = "s\<lparr> raced := (raced s)(t \<mapsto> Inr x), numActive := numActive s - 1,
                 console := console s @ [numActive s - 1] \<rparr>"
  have fr: "\<And>u. \<not> fulfilled_race ?s0 u \<longleftrightarrow> u \<noteq> t \<and> \<not> fulfilled_race s u"
    by (auto simp: fulfilled_race_def)
  have nt: "\<not> fulfilled_race s t" using fulfilled_last(3) by (simp add: fulfilled_race_def)
  have l: "line ?s0 = line s" by (simp add: line_def fun_eq_iff)
  have pr: "\<And>a. a \<notin> set (line s t) \<Longrightarrow> promise (fulfil_chain ?s0 t) a = promise s a"
    using promise_fulfil_chain_other [of _ ?s0 t] by (simp add: l)
  have m1: "\<forall>u \<in> set (calls s). \<not> fulfilled_race ?s0 u \<longrightarrow>
         (\<forall>a \<in> set (line s u). \<not> is_fulfilled (promise (fulfil_chain ?s0 t) a))"
  proof (intro ballI impI)
    fix u a assume u: "u \<in> set (calls s)" "\<not> fulfilled_race ?s0 u" and a: "a \<in> set (line s u)"
    from u have "u \<noteq> t" "\<not> fulfilled_race s u" by (simp_all add: fr)
    with c u(1) fulfilled_last(2) nt have "set (line s u) \<inter> set (line s t) = {}"
      unfolding chain_inv_def by blast
    with a have "a \<notin> set (line s t)" by blast
    then have "promise (fulfil_chain ?s0 t) a = promise s a" by (rule pr)
    moreover from c u(1) \<open>\<not> fulfilled_race s u\<close> a have "\<not> is_fulfilled (promise s a)"
      unfolding chain_inv_def by blast
    ultimately show "\<not> is_fulfilled (promise (fulfil_chain ?s0 t) a)" by simp
  qed
  from c have "(\<forall>t. t \<notin> set (calls s) \<longrightarrow> waiters s t = [])"
    "(\<forall>u \<in> set (calls s). set (waiters s u) \<subseteq> set (calls s))"
    "(\<forall>u \<in> set (calls s). \<forall>u' \<in> set (calls s).
         u \<noteq> u' \<longrightarrow> \<not> fulfilled_race s u \<longrightarrow> \<not> fulfilled_race s u' \<longrightarrow>
         set (line s u) \<inter> set (line s u') = {})"
    unfolding chain_inv_def by blast+
  with m1 show ?thesis
    unfolding fulfilled_last(5) chain_inv_def by (simp add: l fr)
next
  case (fulfilled_next t x t' rest)
  let ?s' = "s\<lparr> raced := (raced s)(t \<mapsto> Inr x),
                console := console s @ [numActive s - 1, numActive s],
                queue := rest, calls := calls s @ [t'],
                promise := (promise s)(t' \<mapsto> Pending),
                pending := pending s @ [t'],
                waiters := (waiters s)(t' := t # waiters s t) \<rparr>"
  have nt: "\<not> fulfilled_race s t" using fulfilled_next(3) by (simp add: fulfilled_race_def)
  from c have m0: "\<forall>t. t \<notin> set (calls s) \<longrightarrow> waiters s t = []"
    and m2: "\<forall>u \<in> set (calls s). set (waiters s u) \<subseteq> set (calls s)"
    and m1: "\<forall>u \<in> set (calls s). \<not> fulfilled_race s u \<longrightarrow>
         (\<forall>a \<in> set (line s u). \<not> is_fulfilled (promise s a))"
    and m3: "\<forall>u \<in> set (calls s). \<forall>u' \<in> set (calls s).
         u \<noteq> u' \<longrightarrow> \<not> fulfilled_race s u \<longrightarrow> \<not> fulfilled_race s u' \<longrightarrow>
         set (line s u) \<inter> set (line s u') = {}"
    unfolding chain_inv_def by blast+
  have sub: "\<And>u. u \<in> set (calls s) \<Longrightarrow> set (line s u) \<subseteq> set (calls s)"
    using m2 by (auto simp: line_def)
  have t't: "t' \<noteq> t" using fulfilled_next(2,5) by auto
  have fr: "\<And>u. \<not> fulfilled_race ?s' u \<longleftrightarrow> u \<noteq> t \<and> \<not> fulfilled_race s u"
    by (auto simp: fulfilled_race_def)
  have l': "line ?s' t' = t' # line s t" by (simp add: line_def)
  have lo: "\<And>u. u \<noteq> t' \<Longrightarrow> line ?s' u = line s u" by (simp add: line_def)
  have po: "\<And>a. a \<noteq> t' \<Longrightarrow> promise ?s' a = promise s a" by simp
  have pt': "\<not> is_fulfilled (promise ?s' t')" by (simp add: is_fulfilled_def)
  have n0: "\<forall>u. u \<notin> set (calls ?s') \<longrightarrow> waiters ?s' u = []" using m0 by simp
  have n2: "\<forall>u \<in> set (calls ?s'). set (waiters ?s' u) \<subseteq> set (calls ?s')"
    using m2 fulfilled_next(2) by auto
  have n1: "\<forall>u \<in> set (calls ?s'). \<not> fulfilled_race ?s' u \<longrightarrow>
         (\<forall>a \<in> set (line ?s' u). \<not> is_fulfilled (promise ?s' a))"
  proof (intro ballI impI)
    fix u a assume u: "u \<in> set (calls ?s')" "\<not> fulfilled_race ?s' u" and a: "a \<in> set (line ?s' u)"
    show "\<not> is_fulfilled (promise ?s' a)"
    proof (cases "a = t'")
      case True
      with pt' show ?thesis by simp
    next
      case False
      show ?thesis
      proof (cases "u = t'")
        case True
        with a False have "a \<in> set (line s t)" by (simp add: l')
        with m1 fulfilled_next(2) nt have "\<not> is_fulfilled (promise s a)" by blast
        with False show ?thesis by (simp add: po)
      next
        case Fu: False
        with u have "u \<in> set (calls s)" "\<not> fulfilled_race s u" by (simp_all add: fr)
        moreover from a Fu have "a \<in> set (line s u)" by (simp add: lo)
        ultimately have "\<not> is_fulfilled (promise s a)" using m1 by blast
        with False show ?thesis by (simp add: po)
      qed
    qed
  qed
  have disj: "\<And>u. u \<in> set (calls s) \<Longrightarrow> u \<noteq> t \<Longrightarrow> \<not> fulfilled_race s u \<Longrightarrow>
        set (line s u) \<inter> set (t' # line s t) = {}"
  proof -
    fix u assume u: "u \<in> set (calls s)" "u \<noteq> t" "\<not> fulfilled_race s u"
    with m3 fulfilled_next(2) nt have "set (line s u) \<inter> set (line s t) = {}" by blast
    moreover from sub [OF u(1)] fulfilled_next(5) have "t' \<notin> set (line s u)" by blast
    ultimately show "set (line s u) \<inter> set (t' # line s t) = {}" by simp
  qed
  have n3: "\<forall>u \<in> set (calls ?s'). \<forall>u' \<in> set (calls ?s').
         u \<noteq> u' \<longrightarrow> \<not> fulfilled_race ?s' u \<longrightarrow> \<not> fulfilled_race ?s' u' \<longrightarrow>
         set (line ?s' u) \<inter> set (line ?s' u') = {}"
  proof (intro ballI impI)
    fix u u' assume u: "u \<in> set (calls ?s')" "u' \<in> set (calls ?s')" "u \<noteq> u'"
      "\<not> fulfilled_race ?s' u" "\<not> fulfilled_race ?s' u'"
    then have ne: "u \<noteq> t" "u' \<noteq> t" "\<not> fulfilled_race s u" "\<not> fulfilled_race s u'"
      by (simp_all add: fr)
    show "set (line ?s' u) \<inter> set (line ?s' u') = {}"
    proof (cases "u = t'")
      case True
      with u have "u' \<in> set (calls s)" "u' \<noteq> t'" by auto
      with disj [of u'] ne True show ?thesis by (simp add: l' lo Int_commute)
    next
      case False
      show ?thesis
      proof (cases "u' = t'")
        case True
        with u False have "u \<in> set (calls s)" by auto
        with disj [of u] ne True False show ?thesis by (simp add: l' lo)
      next
        case F': False
        with False u have "u \<in> set (calls s)" "u' \<in> set (calls s)" by auto
        with m3 u(3) ne False F' show ?thesis by (simp add: lo)
      qed
    qed
  qed
  from n0 n1 n2 n3 show ?thesis
    unfolding fulfilled_next(6) chain_inv_def by blast
qed

subsection \<open>After a call of \<open>all\<close>\<close>

lemma upt_split_less:
  assumes "xs @ ys = [0..<n]" "a \<in> set xs" "b \<in> set ys"
  shows "a < b"
proof -
  have "sorted (xs @ ys)" "distinct (xs @ ys)" by (simp_all only: assms(1) sorted_upt distinct_upt)
  with assms(2,3) have "a \<le> b" "a \<noteq> b" by (auto simp: sorted_append)
  then show ?thesis by simp
qed

lemma pool_inv_calls_upt: "pool_inv s \<Longrightarrow> calls s = [0..<length (calls s)]"
proof -
  assume "pool_inv s"
  then have e: "calls s @ queue s = [0..<submitted s]" by (simp add: pool_inv_def)
  then have "length (calls s) + length (queue s) = submitted s"
    by (metis length_append length_upt diff_zero)
  then have "take (length (calls s)) [0..<submitted s] = [0..<length (calls s)]"
    by (simp add: take_upt)
  with e show ?thesis by (metis append_eq_conv_conj)
qed

lemma snap_inv_start:
  assumes "pool_inv s"
  shows "snap_inv (length (calls s)) (submitted s) s"
proof -
  have "\<And>u. u \<in> set (calls s) \<Longrightarrow> u < length (calls s)"
    using pool_inv_calls_upt [OF assms] by (metis atLeastLessThan_iff set_upt)
  then show ?thesis by (auto simp: snap_inv_def line_def)
qed

lemma snap_inv_step:
  assumes p: "pool_inv s" and n: "snap_inv k K s"
  shows "snap_inv k K (step s e)"
  using p
proof (cases rule: step_cases [where s = s and e = e])
  case ignored
  with n show ?thesis by simp
next
  case enqueued
  with n show ?thesis by (simp add: snap_inv_def line_def fulfilled_race_def)
next
  case executed
  from n show ?thesis
    unfolding executed(5) snap_inv_def line_def fulfilled_race_def by auto
next
  case (rejected t err)
  let ?s0 = "s\<lparr> raced := (raced s)(t \<mapsto> Inl err) \<rparr>"
  have fr: "fulfilled_race ?s0 = fulfilled_race s"
    using rejected(3) by (auto simp: fulfilled_race_def fun_eq_iff)
  have l: "line ?s0 = line s" by (simp add: line_def fun_eq_iff)
  from n show ?thesis
    unfolding rejected(4) snap_inv_def by (simp add: fr l)
next
  case (fulfilled_last t x)
  let ?s0 = "s\<lparr> raced := (raced s)(t \<mapsto> Inr x), numActive := numActive s - 1,
                 console := console s @ [numActive s - 1] \<rparr>"
  have fr: "\<And>u. \<not> fulfilled_race ?s0 u \<longleftrightarrow> u \<noteq> t \<and> \<not> fulfilled_race s u"
    by (auto simp: fulfilled_race_def)
  have l: "line ?s0 = line s" by (simp add: line_def fun_eq_iff)
  from n show ?thesis
    unfolding fulfilled_last(5) snap_inv_def by (simp add: fr l)
next
  case (fulfilled_next t x t' rest)
  let ?s' = "s\<lparr> raced := (raced s)(t \<mapsto> Inr x),
                console := console s @ [numActive s - 1, numActive s],
                queue := rest, calls := calls s @ [t'],
                promise := (promise s)(t' \<mapsto> Pending),
                pending := pending s @ [t'],
                waiters := (waiters s)(t' := t # waiters s t) \<rparr>"
  have nt: "\<not> fulfilled_race s t" using fulfilled_next(3) by (simp add: fulfilled_race_def)
  have fr: "\<And>u. \<not> fulfilled_race ?s' u \<longleftrightarrow> u \<noteq> t \<and> \<not> fulfilled_race s u"
    by (auto simp: fulfilled_race_def)
  have l': "line ?s' t' = t' # line s t" by (simp add: line_def)
  have lo: "\<And>u. u \<noteq> t' \<Longrightarrow> line ?s' u = line s u" by (simp add: line_def)
  from p have "calls s @ queue s = [0..<submitted s]" by (simp add: pool_inv_def)
  from upt_split_less [OF this fulfilled_next(2), of t'] fulfilled_next(4)
  have lt: "t < t'" by simp
  from n fulfilled_next(2) nt have tt: "(\<exists>a \<in> set (line s t). a < k) \<or> K \<le> t"
    unfolding snap_inv_def by blast
  have "\<forall>u \<in> set (calls ?s'). \<not> fulfilled_race ?s' u \<longrightarrow>
          (\<exists>a \<in> set (line ?s' u). a < k) \<or> K \<le> u"
  proof (intro ballI impI)
    fix u assume u: "u \<in> set (calls ?s')" "\<not> fulfilled_race ?s' u"
    show "(\<exists>a \<in> set (line ?s' u). a < k) \<or> K \<le> u"
    proof (cases "u = t'")
      case True
      with tt lt show ?thesis by (auto simp: l')
    next
      case False
      with u have "u \<in> set (calls s)" "\<not> fulfilled_race s u" by (simp_all add: fr)
      with n have "(\<exists>a \<in> set (line s u). a < k) \<or> K \<le> u" unfolding snap_inv_def by blast
      with False show ?thesis by (simp add: lo)
    qed
  qed
  moreover from n have "K \<le> submitted ?s'" by (simp add: snap_inv_def)
  ultimately show ?thesis unfolding fulfilled_next(6) snap_inv_def by blast
qed

lemma invs_events:
  "pool_inv s \<Longrightarrow> chain_inv s \<Longrightarrow> snap_inv k K s \<Longrightarrow>
   pool_inv (run_events s es) \<and> chain_inv (run_events s es) \<and> snap_inv k K (run_events s es)"
  unfolding run_events_def
  by (induction es arbitrary: s) (simp_all add: pool_inv_step chain_inv_step snap_inv_step)

lemma chain_inv_events: "pool_inv s \<Longrightarrow> chain_inv s \<Longrightarrow> chain_inv (run_events s es)"
  unfolding run_events_def
  by (induction es arbitrary: s) (simp_all add: pool_inv_step chain_inv_step)

lemma maxConcurrency_step: "pool_inv s \<Longrightarrow> maxConcurrency (step s e) = maxConcurrency s"
  by (cases rule: step_cases [where s = s and e = e]) simp_all

lemma maxConcurrency_events:
  "pool_inv s \<Longrightarrow> maxConcurrency (run_events s es) = maxConcurrency s"
  unfolding run_events_def
  by (induction es arbitrary: s) (simp_all add: pool_inv_step maxConcurrency_step)

lemma maxConcurrency_TaskPool: "maxConcurrency (run_events (TaskPool n) es) = n"
  using maxConcurrency_events [OF pool_inv_init, of n es] by (simp add: TaskPool_def)

lemma promise_all_fulfilled:
  "promise_all ps ts = JFulfilled vs \<Longrightarrow> t \<in> set ts \<Longrightarrow> is_fulfilled (ps t)"
  by (induction ts arbitrary: vs)
     (auto simp: is_fulfilled_def split: joined.splits option.splits promise.splits)

lemma active_exists:
  assumes "pool_inv s" "0 < numActive s"
  shows "\<exists>u \<in> set (calls s). \<not> fulfilled_race s u"
proof -
  from assms have "filter (\<lambda>t. \<not> fulfilled_race s t) (calls s) \<noteq> []"
    by (auto simp: pool_inv_def)
  then show ?thesis by (auto simp: filter_empty_conv)
qed

text \<open>
  Claim C3, as the code has it. For a pool with a ceiling of at least 1: when \<open>all\<close> is
  called after \<open>K\<close> tasks were submitted, whatever happens before and after the call,
  the promise it returns is fulfilled only when every one of the \<open>K\<close> tasks has been
  fulfilled, those that were still in the queue at the call and those started by the
  handlers of other tasks included.
\<close>

theorem C3_join_waits_for_all:
  assumes c: "1 \<le> ceiling"
    and s1: "s1 = run_events (TaskPool ceiling) es1"
    and s2: "s2 = run_events s1 es2"
    and j: "all s1 s2 = JFulfilled vs"
  shows "\<forall>t < submitted s1. \<exists>v. raced s2 t = Some (Inr v)"
proof (intro allI impI)
  fix t assume t: "t < submitted s1"
  let ?k = "length (calls s1)" and ?K = "submitted s1"
  have p1: "pool_inv s1" and c1: "chain_inv s1"
    unfolding s1 by (simp_all add: pool_inv_events pool_inv_init chain_inv_events chain_inv_init)
  from invs_events [OF p1 c1 snap_inv_start [OF p1], of es2]
  have p2: "pool_inv s2" and c2: "chain_inv s2" and n2: "snap_inv ?k ?K s2"
    unfolding s2 by simp_all
  have mc: "maxConcurrency s2 = ceiling"
    unfolding s2 s1
    by (simp only: maxConcurrency_events [OF pool_inv_events [OF pool_inv_init]]
          maxConcurrency_TaskPool)
  have pend: "set (pending s1) = {0..<?k}"
    using p1 pool_inv_calls_upt [OF p1] by (metis pool_inv_def set_upt)
  have ful: "\<And>a. a < ?k \<Longrightarrow> is_fulfilled (promise s2 a)"
    using promise_all_fulfilled [OF j [unfolded all_def]] pend by simp
  have late: "\<And>u. u \<in> set (calls s2) \<Longrightarrow> \<not> fulfilled_race s2 u \<Longrightarrow> ?K \<le> u"
  proof -
    fix u assume u: "u \<in> set (calls s2)" "\<not> fulfilled_race s2 u"
    with c2 have "\<forall>a \<in> set (line s2 u). \<not> is_fulfilled (promise s2 a)"
      unfolding chain_inv_def by blast
    with ful have "\<not> (\<exists>a \<in> set (line s2 u). a < ?k)" by blast
    with n2 u show "?K \<le> u" unfolding snap_inv_def by blast
  qed
  have e2: "calls s2 @ queue s2 = [0..<submitted s2]" using p2 by (simp add: pool_inv_def)
  from n2 have "?K \<le> submitted s2" by (simp add: snap_inv_def)
  with t have "t \<in> set (calls s2 @ queue s2)" unfolding e2 by simp
  then have "fulfilled_race s2 t"
  proof (simp only: set_append Un_iff, elim disjE)
    assume "t \<in> set (calls s2)"
    with late [of t] t show ?thesis by fastforce
  next
    assume q: "t \<in> set (queue s2)"
    then have "queue s2 \<noteq> []" by auto
    with p2 mc c have "0 < numActive s2" by (auto simp: pool_inv_def)
    from active_exists [OF p2 this] obtain u where u: "u \<in> set (calls s2)" "\<not> fulfilled_race s2 u"
      by blast
    from late [OF u] upt_split_less [OF e2 u(1) q] t show ?thesis by simp
  qed
  then show "\<exists>v. raced s2 t = Some (Inr v)"
    by (auto simp: fulfilled_race_def split: option.splits sum.splits)
qed

lemmas pool_defs = run_events_def TaskPool_def run_def enqueue_def execute_def settle_def
  on_fulfilled_def fulfil_chain_def reject_chain_def fulfil_one_def reject_one_def Let_def

theorem C3_join_waits_for_all_witness:
  "all (run_events (TaskPool 1 :: nat pool) [Run, Run]) (run_events (run_events (TaskPool 1 :: nat pool) [Run, Run]) [Task_fulfils 0 7, Task_fulfils 1 8]) = JFulfilled [7]
   \<and> submitted (run_events (TaskPool 1 :: nat pool) [Run, Run]) = 2
   \<and> (\<exists>v. raced (run_events (run_events (TaskPool 1 :: nat pool) [Run, Run]) [Task_fulfils 0 7, Task_fulfils 1 8]) 0 = Some (Inr v))
   \<and> (\<exists>v. raced (run_events (run_events (TaskPool 1 :: nat pool) [Run, Run]) [Task_fulfils 0 7, Task_fulfils 1 8]) 1 = Some (Inr v))"
proof -
  let ?s1 = "(run_events (TaskPool 1 :: nat pool) [Run, Run])"
  let ?s2 = "(run_events (run_events (TaskPool 1 :: nat pool) [Run, Run]) [Task_fulfils 0 7, Task_fulfils 1 8])"
  have j: "all ?s1 ?s2 = JFulfilled [7]" by (simp add: pool_defs all_def)
  have k: "submitted ?s1 = 2" by (simp add: pool_defs)
  have c: "(1 :: nat) \<le> 1" by simp
  note t = C3_join_waits_for_all [OF c refl refl j]
  from t k have "\<exists>v. raced ?s2 0 = Some (Inr v)" by simp
  moreover from t k have "\<exists>v. raced ?s2 1 = Some (Inr v)" by simp
  ultimately show ?thesis using j k by blast
qed

text \<open>
  Without the bound on the ceiling the claim fails: in a pool with ceiling 0 every task
  is queued, \<open>pending\<close> stays empty, and the promise of \<open>all\<close> is fulfilled at once
  while the two tasks submitted have not been started. And the promise of \<open>all\<close> can
  be rejected before all tasks have settled: with ceiling 1 and two tasks, when the
  first task times out the promise is rejected while the second task is in the queue.
\<close>

theorem C3_counterexample:
  "all (run_events (TaskPool 0 :: nat pool) [Run, Run]) (run_events (TaskPool 0 :: nat pool) [Run, Run]) = JFulfilled []
   \<and> submitted (run_events (TaskPool 0 :: nat pool) [Run, Run]) = 2
   \<and> calls (run_events (TaskPool 0 :: nat pool) [Run, Run]) = []
   \<and> queue (run_events (TaskPool 0 :: nat pool) [Run, Run]) = [0, 1]
   \<and> raced (run_events (TaskPool 0 :: nat pool) [Run, Run]) 0 = None
   \<and> raced (run_events (TaskPool 0 :: nat pool) [Run, Run]) 1 = None
   \<and> all (run_events (TaskPool 1 :: nat pool) [Run, Run]) (run_events (run_events (TaskPool 1 :: nat pool) [Run, Run]) [Timer_fires 0]) = JRejected
   \<and> queue (run_events (run_events (TaskPool 1 :: nat pool) [Run, Run]) [Timer_fires 0]) = [1]
   \<and> raced (run_events (run_events (TaskPool 1 :: nat pool) [Run, Run]) [Timer_fires 0]) 1 = None"
  by (simp add: pool_defs all_def)

subsection \<open>The ceiling and the order of starts\<close>

lemma running_le_active:
  "length (running s) \<le> length (filter (\<lambda>t. \<not> fulfilled_race s t) (calls s))"
proof -
  have "running s = filter (\<lambda>t. raced s t = None) (filter (\<lambda>t. \<not> fulfilled_race s t) (calls s))"
    by (auto simp: running_def fulfilled_race_def intro: filter_cong)
  then show ?thesis by (metis length_filter_le)
qed

text \<open>
  Claim C2. In every state a pool reaches, the tasks in the state RUNNING are at most
  as many as the ceiling. The tasks are started in the order of their arrival, and the
  queue holds the tasks not started, in that order. A task submitted when the ceiling
  is reached goes to the end of the queue and is not started; below the ceiling the
  queue is empty and the task is started at once. A task of the queue is started only
  by the handler of a running task that is fulfilled, and it is the first of the queue.
\<close>

theorem C2_ceiling_and_fifo:
  assumes s: "s = run_events (TaskPool ceiling) es"
  shows "length (running s) \<le> ceiling
       \<and> numActive s \<le> int ceiling
       \<and> calls s @ queue s = [0..<submitted s]
       \<and> (ceiling \<le> length (running s) \<longrightarrow> int ceiling \<le> numActive s)
       \<and> (int ceiling \<le> numActive s \<longrightarrow>
            queue (step s Run) = queue s @ [submitted s] \<and> calls (step s Run) = calls s)
       \<and> (numActive s < int ceiling \<longrightarrow>
            queue s = [] \<and> calls (step s Run) = calls s @ [submitted s])
       \<and> (\<forall>e. e \<noteq> Run \<and> calls (step s e) \<noteq> calls s \<longrightarrow>
            (\<exists>t x t' rest. e = Task_fulfils t x \<and> t \<in> set (running s) \<and> queue s = t' # rest
               \<and> queue (step s e) = rest \<and> calls (step s e) = calls s @ [t']))"
proof -
  have p: "pool_inv s" unfolding s by (simp add: pool_inv_events pool_inv_init)
  have mc: "maxConcurrency s = ceiling"
    unfolding s by (rule maxConcurrency_TaskPool)
  from p mc have na: "numActive s \<le> int ceiling"
    and act: "numActive s = int (length (filter (\<lambda>t. \<not> fulfilled_race s t) (calls s)))"
    and ord: "calls s @ queue s = [0..<submitted s]"
    by (simp_all add: pool_inv_def)
  from running_le_active [of s] act have ra: "int (length (running s)) \<le> numActive s" by simp
  with na have c1: "length (running s) \<le> ceiling" by simp
  from ra have c4: "ceiling \<le> length (running s) \<longrightarrow> int ceiling \<le> numActive s" by simp
  have c5: "int ceiling \<le> numActive s \<longrightarrow>
            queue (step s Run) = queue s @ [submitted s] \<and> calls (step s Run) = calls s"
    using mc by (simp add: run_def enqueue_def)
  have c6: "numActive s < int ceiling \<longrightarrow>
            queue s = [] \<and> calls (step s Run) = calls s @ [submitted s]"
    using mc p by (auto simp: run_def execute_def pool_inv_def)
  have c7: "\<forall>e. e \<noteq> Run \<and> calls (step s e) \<noteq> calls s \<longrightarrow>
            (\<exists>t x t' rest. e = Task_fulfils t x \<and> t \<in> set (running s) \<and> queue s = t' # rest
               \<and> queue (step s e) = rest \<and> calls (step s e) = calls s @ [t'])"
  proof (intro allI impI)
    fix e :: "'a event" assume e: "e \<noteq> Run \<and> calls (step s e) \<noteq> calls s"
    from p show "\<exists>t x t' rest. e = Task_fulfils t x \<and> t \<in> set (running s) \<and> queue s = t' # rest
               \<and> queue (step s e) = rest \<and> calls (step s e) = calls s @ [t']"
    proof (cases rule: step_cases [where s = s and e = e])
      case (fulfilled_next t x t' rest)
      then show ?thesis by (auto simp: running_def)
    qed (use e in simp_all)
  qed
  from c1 na ord c4 c5 c6 c7 show ?thesis by blast
qed

theorem C2_ceiling_and_fifo_witness:
  "length (running (run_events (TaskPool 1 :: nat pool) [Run, Run])) \<le> 1
   \<and> calls (run_events (TaskPool 1 :: nat pool) [Run, Run]) @ queue (run_events (TaskPool 1 :: nat pool) [Run, Run]) = [0, 1]
   \<and> queue (step (run_events (TaskPool 1 :: nat pool) [Run, Run]) Run) = [1, 2]
   \<and> calls (step (run_events (TaskPool 1 :: nat pool) []) Run) = [0]
   \<and> (\<exists>t x t' rest. Task_fulfils 0 7 = Task_fulfils t x
         \<and> t \<in> set (running (run_events (TaskPool 1 :: nat pool) [Run, Run]))
         \<and> queue (run_events (TaskPool 1 :: nat pool) [Run, Run]) = t' # rest
         \<and> queue (step (run_events (TaskPool 1 :: nat pool) [Run, Run]) (Task_fulfils 0 7)) = rest
         \<and> calls (step (run_events (TaskPool 1 :: nat pool) [Run, Run]) (Task_fulfils 0 7)) = calls (run_events (TaskPool 1 :: nat pool) [Run, Run]) @ [t'])"
proof -
  let ?s = "(run_events (TaskPool 1 :: nat pool) [Run, Run])"
  let ?i = "(run_events (TaskPool 1 :: nat pool) [])"
  note a = C2_ceiling_and_fifo [OF refl, of 1 "[Run, Run :: nat event]"]
  note b = C2_ceiling_and_fifo [OF refl, of 1 "[] :: nat event list"]
  have h1: "int 1 \<le> numActive ?s" by (simp add: pool_defs)
  have h2: "Task_fulfils 0 (7 :: nat) \<noteq> Run
            \<and> calls (step ?s (Task_fulfils 0 7)) \<noteq> calls ?s" by (simp add: pool_defs)
  have h3: "numActive ?i < int 1" by (simp add: pool_defs)
  have v: "queue ?s = [1]" "submitted ?s = 2" "calls ?i = []" "submitted ?i = 0"
    by (simp_all add: pool_defs)
  from a h1 have x: "queue (step ?s Run) = queue ?s @ [submitted ?s]" by blast
  have q: "queue (step ?s Run) = [1, 2]" unfolding x v by simp
  from b h3 have y: "calls (step ?i Run) = calls ?i @ [submitted ?i]" by blast
  have c: "calls (step ?i Run) = [0]" unfolding y v by simp
  from a have o: "calls ?s @ queue ?s = [0..<submitted ?s]" by blast
  have "[0..<submitted ?s] = [0, 1]" unfolding v by (simp add: upt_rec)
  with o have o': "calls ?s @ queue ?s = [0, 1]" by (simp only:)
  from a have l: "length (running ?s) \<le> 1" by blast
  from a h2 have "\<exists>t x t' rest. Task_fulfils 0 (7 :: nat) = Task_fulfils t x
         \<and> t \<in> set (running ?s) \<and> queue ?s = t' # rest
         \<and> queue (step ?s (Task_fulfils 0 7)) = rest
         \<and> calls (step ?s (Task_fulfils 0 7)) = calls ?s @ [t']" by blast
  with l o' q c show ?thesis by blast
qed

subsection \<open>Timeouts\<close>









lemma leak_stays:
  assumes "numActive s = 1" "maxConcurrency s = 1" "calls s = [0]" "raced s 0 \<noteq> None"
    "outer s 1 = Some Pending"
  shows "numActive (run_events s es) = 1 \<and> calls (run_events s es) = [0]
       \<and> outer (run_events s es) 1 = Some Pending"
  using assms unfolding run_events_def
proof (induction es arbitrary: s)
  case Nil
  then show ?case by simp
next
  case (Cons e es)
  have "numActive (step s e) = 1 \<and> maxConcurrency (step s e) = 1 \<and> calls (step s e) = [0]
        \<and> raced (step s e) 0 \<noteq> None \<and> outer (step s e) 1 = Some Pending"
    using Cons.prems by (cases e) (auto simp: run_def enqueue_def settle_def)
  with Cons.IH [of "step s e"] show ?case by simp
qed

text \<open>
  Claim C1, at an input where the code does not do what the claim says. In a pool with
  ceiling 1 two tasks are submitted, and the timer of the first task fires. The
  handler of \<open>.then\<close> is for fulfilment only and does not run: \<open>numActive\<close> stays 1 with no
  task running, and the second task stays in the queue. Whatever events follow, no
  task is started any more, \<open>numActive\<close> stays 1, and the promise \<open>run\<close> returned for the
  second task stays pending: that task gets no outcome.
\<close>

theorem C1_timeout_keeps_the_slot:
  "numActive (run_events (TaskPool 1 :: nat pool) [Run, Run, Timer_fires 0]) = 1
   \<and> running (run_events (TaskPool 1 :: nat pool) [Run, Run, Timer_fires 0]) = []
   \<and> queue (run_events (TaskPool 1 :: nat pool) [Run, Run, Timer_fires 0]) = [1]
   \<and> raced (run_events (TaskPool 1 :: nat pool) [Run, Run, Timer_fires 0]) 0 = Some (Inl TimedOut)
   \<and> (\<forall>es. numActive (run_events (run_events (TaskPool 1 :: nat pool) [Run, Run, Timer_fires 0]) es) = 1
           \<and> calls (run_events (run_events (TaskPool 1 :: nat pool) [Run, Run, Timer_fires 0]) es) = [0]
           \<and> outer (run_events (run_events (TaskPool 1 :: nat pool) [Run, Run, Timer_fires 0]) es) 1 = Some Pending)"
proof -
  have a: "numActive (run_events (TaskPool 1 :: nat pool) [Run, Run, Timer_fires 0]) = 1" "maxConcurrency (run_events (TaskPool 1 :: nat pool) [Run, Run, Timer_fires 0]) = 1" "calls (run_events (TaskPool 1 :: nat pool) [Run, Run, Timer_fires 0]) = [0]"
    "raced (run_events (TaskPool 1 :: nat pool) [Run, Run, Timer_fires 0]) 0 \<noteq> None" "outer (run_events (TaskPool 1 :: nat pool) [Run, Run, Timer_fires 0]) 1 = Some Pending"
    by (simp_all add: pool_defs)
  have b: "running (run_events (TaskPool 1 :: nat pool) [Run, Run, Timer_fires 0]) = []" "queue (run_events (TaskPool 1 :: nat pool) [Run, Run, Timer_fires 0]) = [1]" "raced (run_events (TaskPool 1 :: nat pool) [Run, Run, Timer_fires 0]) 0 = Some (Inl TimedOut)"
    by (simp_all add: pool_defs running_def)
  from leak_stays [OF a] a(1) b show ?thesis by blast
qed

section \<open>Properties of the run coordinator\<close>













end
